theory Spec2Isabelle
  imports Main "HOL-Library.Sublist"
begin


section \<open>JavaScript strings\<close>

text \<open>
  Strings are \<^typ>\<open>string\<close>; the operations below are the ASCII fragment of the
  \<^verbatim>\<open>String.prototype\<close> methods the auditors call.
\<close>

definition isUpper :: "char \<Rightarrow> bool" where
  "isUpper c = (65 \<le> (of_char c :: nat) \<and> (of_char c :: nat) \<le> 90)"

definition isLower :: "char \<Rightarrow> bool" where
  "isLower c = (97 \<le> (of_char c :: nat) \<and> (of_char c :: nat) \<le> 122)"

definition isDigit :: "char \<Rightarrow> bool" where
  "isDigit c = (48 \<le> (of_char c :: nat) \<and> (of_char c :: nat) \<le> 57)"

definition isAlpha :: "char \<Rightarrow> bool" where
  "isAlpha c = (isUpper c \<or> isLower c)"

definition isAlnum :: "char \<Rightarrow> bool" where
  "isAlnum c = (isAlpha c \<or> isDigit c)"

text \<open>White space as \<^verbatim>\<open>trim\<close> and the regular expression class \<^verbatim>\<open>\s\<close> see it, for its ASCII
  part only: the no-break space and the other Unicode spaces are not modelled.\<close>

definition isSpace :: "char \<Rightarrow> bool" where
  "isSpace c = ((of_char c :: nat) \<in> {9, 10, 11, 12, 13, 32})"

definition toLowerChar :: "char \<Rightarrow> char" where
  "toLowerChar c = (if isUpper c then char_of ((of_char c :: nat) + 32) else c)"

definition toUpperChar :: "char \<Rightarrow> char" where
  "toUpperChar c = (if isLower c then char_of ((of_char c :: nat) - 32) else c)"

definition toLowerCase :: "string \<Rightarrow> string" where
  "toLowerCase s = map toLowerChar s"

definition toUpperCase :: "string \<Rightarrow> string" where
  "toUpperCase s = map toUpperChar s"

definition trim :: "string \<Rightarrow> string" where
  "trim s = rev (dropWhile isSpace (rev (dropWhile isSpace s)))"

definition startsWith :: "string \<Rightarrow> string \<Rightarrow> bool" where
  "startsWith s p = prefix p s"

definition endsWith :: "string \<Rightarrow> string \<Rightarrow> bool" where
  "endsWith s p = prefix (rev p) (rev s)"

fun includesStr :: "string \<Rightarrow> string \<Rightarrow> bool" where
  "includesStr [] p = (p = [])"
| "includesStr (c # cs) p = (prefix p (c # cs) \<or> includesStr cs p)"

text \<open>\<^verbatim>\<open>s.split(sep)\<close> for a one-character separator; \<^verbatim>\<open>''.split('/')\<close> is \<^verbatim>\<open>['']\<close>.\<close>

fun split :: "string \<Rightarrow> char \<Rightarrow> string list" where
  "split [] sep = [[]]"
| "split (c # cs) sep =
     (if c = sep then [] # split cs sep
      else (case split cs sep of [] \<Rightarrow> [[c]] | w # ws \<Rightarrow> (c # w) # ws))"

fun join :: "string list \<Rightarrow> string \<Rightarrow> string" where
  "join [] sep = []"
| "join [x] sep = x"
| "join (x # y # zs) sep = x @ sep @ join (y # zs) sep"

text \<open>\<^verbatim>\<open>s.charAt(i)\<close>: the one-character string at \<open>i\<close>, the empty string out of range.\<close>

definition charAt :: "string \<Rightarrow> nat \<Rightarrow> string" where
  "charAt s i = (if i < length s then [s ! i] else [])"

text \<open>
  JavaScript numbers as far as the heading check needs them: an integer or \<^verbatim>\<open>NaN\<close>
  (\<open>None\<close>). \<^verbatim>\<open>parseInt\<close> is modelled on the strings \<^verbatim>\<open>charAt\<close> returns: a
  decimal digit gives its value, anything else \<^verbatim>\<open>NaN\<close>.
\<close>

type_synonym number = "int option"

definition parseInt :: "string \<Rightarrow> number" where
  "parseInt s =
     (case s of
        [c] \<Rightarrow> (if isDigit c then Some (int (of_char c) - 48) else None)
      | _ \<Rightarrow> None)"

text \<open>\<open>a > b + 1\<close> on numbers: every comparison with \<^verbatim>\<open>NaN\<close> is false.\<close>

definition gtPlusOne :: "number \<Rightarrow> number \<Rightarrow> bool" where
  "gtPlusOne current previous =
     (case (current, previous) of
        (Some c, Some p) \<Rightarrow> c > p + 1
      | _ \<Rightarrow> False)"

fun natToString :: "nat \<Rightarrow> string" where
  "natToString n =
     (if n < 10 then [char_of (48 + n)]
      else natToString (n div 10) @ [char_of (48 + n mod 10)])"

definition numberToString :: "number \<Rightarrow> string" where
  "numberToString x =
     (case x of
        None \<Rightarrow> ''NaN''
      | Some i \<Rightarrow> (if i < 0 then CHR ''-'' # natToString (nat (- i)) else natToString (nat i)))"

section \<open>The parsed document\<close>

text \<open>
  What \<^verbatim>\<open>DOMParser.parseFromString(html, 'text/html')\<close> returns, as a tree: an element has
  its local name (lower case), its attributes and its child nodes.
\<close>

datatype node = Element string "(string \<times> string) list" "node list" | Text string

fun textContent :: "node \<Rightarrow> string" where
  "textContent (Text t) = t"
| "textContent (Element tag attrs kids) = concat (map textContent kids)"

text \<open>The element itself and its descendant elements, in document order.\<close>

fun elements :: "node \<Rightarrow> node list" where
  "elements (Text t) = []"
| "elements (Element tag attrs kids) = Element tag attrs kids # concat (map elements kids)"

fun localName :: "node \<Rightarrow> string" where
  "localName (Text t) = []"
| "localName (Element tag attrs kids) = tag"

definition tagName :: "node \<Rightarrow> string" where
  "tagName e = toUpperCase (localName e)"

fun getAttribute :: "node \<Rightarrow> string \<Rightarrow> string option" where
  "getAttribute (Text t) a = None"
| "getAttribute (Element tag attrs kids) a = map_of attrs a"

text \<open>The selectors the auditors use: a tag, a tag with an attribute, a tag with an
  attribute of a given value; a selector list is a comma-separated union. The value of an
  attribute is compared as written; the case-insensitive matching an HTML document applies
  to the \<^verbatim>\<open>type\<close> attribute is not modelled.\<close>

datatype selector = Tag string | TagAttr string string | TagAttrEq string string string

fun matchesSel :: "node \<Rightarrow> selector \<Rightarrow> bool" where
  "matchesSel e (Tag t) = (localName e = t)"
| "matchesSel e (TagAttr t a) = (localName e = t \<and> getAttribute e a \<noteq> None)"
| "matchesSel e (TagAttrEq t a v) = (localName e = t \<and> getAttribute e a = Some v)"

definition matchesAny :: "selector list \<Rightarrow> node \<Rightarrow> bool" where
  "matchesAny sels e = list_ex (matchesSel e) sels"

text \<open>\<^verbatim>\<open>document.querySelectorAll\<close> ranges over every element of the document,
  \<^verbatim>\<open>element.querySelectorAll\<close> over the proper descendants of the element.\<close>

definition docQuerySelectorAll :: "node \<Rightarrow> selector list \<Rightarrow> node list" where
  "docQuerySelectorAll doc sels = filter (matchesAny sels) (elements doc)"

definition querySelectorAll :: "node \<Rightarrow> selector list \<Rightarrow> node list" where
  "querySelectorAll e sels = filter (matchesAny sels) (tl (elements e))"

definition querySelector :: "node \<Rightarrow> selector list \<Rightarrow> node option" where
  "querySelector e sels = (case querySelectorAll e sels of [] \<Rightarrow> None | x # _ \<Rightarrow> Some x)"

definition getElementById :: "node \<Rightarrow> string \<Rightarrow> node option" where
  "getElementById doc i = find (\<lambda>e. getAttribute e ''id'' = Some i) (elements doc)"

definition body :: "node \<Rightarrow> node option" where
  "body doc = find (\<lambda>e. localName e = ''body'') (elements doc)"

section \<open>Platform: the URL parser\<close>

text \<open>
  \<^verbatim>\<open>new URL(s)\<close> without a base. The WHATWG parser fails on an input with no
  scheme (a letter, then letters, digits, \<^verbatim>\<open>+\<close>, \<^verbatim>\<open>-\<close> or \<^verbatim>\<open>.\<close>, then a colon); that part is
  exact. Of a URL with a scheme the model keeps what the auditors read: the path name, which
  runs from the first slash after the authority to the query or fragment and is \<^verbatim>\<open>/\<close> when
  empty. Percent-encoding, dot segments, host validation and the stripping of leading and
  trailing white space are not modelled.
\<close>

definition isSchemeChar :: "char \<Rightarrow> bool" where
  "isSchemeChar c = (isAlnum c \<or> c = CHR ''+'' \<or> c = CHR ''-'' \<or> c = CHR ''.'')"

definition parseScheme :: "string \<Rightarrow> (string \<times> string) option" where
  "parseScheme s =
     (case s of
        [] \<Rightarrow> None
      | c # cs \<Rightarrow>
          if isAlpha c then
            (case dropWhile isSchemeChar cs of
               [] \<Rightarrow> None
             | d # rest \<Rightarrow>
                 if d = CHR '':'' then Some (c # takeWhile isSchemeChar cs, rest) else None)
          else None)"

definition beforeQueryOrFragment :: "string \<Rightarrow> string" where
  "beforeQueryOrFragment s = takeWhile (\<lambda>c. c \<noteq> CHR ''?'' \<and> c \<noteq> CHR ''#'') s"

definition urlPathname :: "string \<Rightarrow> string option" where
  "urlPathname s =
     (case parseScheme s of
        None \<Rightarrow> None
      | Some (scheme, rest) \<Rightarrow>
          (let r = beforeQueryOrFragment rest in
           if startsWith r ''//'' then
             (let p = dropWhile (\<lambda>c. c \<noteq> CHR ''/'') (drop 2 r)
              in Some (if p = [] then ''/'' else p))
           else Some r))"

text \<open>
  \<^verbatim>\<open>new URL(href, base).href\<close>, reduced to the cases of a link in a page: an \<open>href\<close> with a
  scheme stands for itself; one without is resolved against a base that has a scheme and an
  authority (scheme-relative, path-absolute, or relative to the directory of the base's
  path); with a base that does not parse the constructor throws (\<open>None\<close>).
\<close>

definition urlResolve :: "string \<Rightarrow> string \<Rightarrow> string option" where
  "urlResolve href base =
     (case parseScheme href of
        Some _ \<Rightarrow> Some href
      | None \<Rightarrow>
          (case parseScheme base of
             None \<Rightarrow> None
           | Some (scheme, rest) \<Rightarrow>
               (let r = beforeQueryOrFragment rest;
                    authority = takeWhile (\<lambda>c. c \<noteq> CHR ''/'') (drop 2 r);
                    path = dropWhile (\<lambda>c. c \<noteq> CHR ''/'') (drop 2 r);
                    dir = rev (dropWhile (\<lambda>c. c \<noteq> CHR ''/'') (rev path));
                    origin = scheme @ ''://'' @ authority
                in if startsWith href ''//'' then Some (scheme @ '':'' @ href)
                   else if startsWith href ''/'' then Some (origin @ href)
                   else Some (origin @ (if dir = [] then ''/'' else dir) @ href))))"

section \<open>Audit results and errors\<close>

datatype AuditType =
    IMAGE_MISSING_ALT | IMAGE_WITH_ALT | INACCESSIBLE_LINK | INACCESSIBLE_BUTTON
  | PDF_LINK | OFFICE_LINK | TABLE_INFO | HEADING_HIERARCHY

record AuditResult =
  fullUrl :: string
  type :: AuditType
  details :: string
  linkText :: string
  targetUrl :: string
  imageFilename :: string

text \<open>A thrown \<^verbatim>\<open>Error\<close>: its \<^verbatim>\<open>name\<close> and its \<^verbatim>\<open>message\<close>.\<close>

datatype jsError = JsError (errorName: string) (errorMessage: string)

text \<open>\<^verbatim>\<open>list.forEach(f)\<close> where \<open>f\<close> may throw: the first throw ends the loop.\<close>

fun forEach :: "'a list \<Rightarrow> ('a \<Rightarrow> 's \<Rightarrow> jsError + 's) \<Rightarrow> 's \<Rightarrow> jsError + 's" where
  "forEach [] f s = Inr s"
| "forEach (x # xs) f s = (case f x s of Inl e \<Rightarrow> Inl e | Inr s' \<Rightarrow> forEach xs f s')"

section \<open>baseAuditor.ts\<close>

text \<open>
  What the proxy fetch and the parser did for one call of \<^verbatim>\<open>fetchAndParseHTML\<close>: the parsed
  document, an \<^verbatim>\<open>AbortError\<close> (the signal or the 15 s timeout fired), or any other error
  thrown inside the \<^verbatim>\<open>try\<close> (network error, non-2xx response, parser failure) with its message.
\<close>

datatype fetchResponse = Fetched node | AbortError | Failed string

definition fetchAndParseHTML :: "string \<Rightarrow> fetchResponse \<Rightarrow> jsError + node" where
  "fetchAndParseHTML url r =
     (case r of
        Fetched doc \<Rightarrow> Inr doc
      | AbortError \<Rightarrow> Inl (JsError ''Error'' ''Request was cancelled'')
      | Failed msg \<Rightarrow> Inl (JsError ''Error'' (''Failed to fetch '' @ url @ '': '' @ msg)))"

definition createAuditResult ::
  "AuditType \<Rightarrow> string \<Rightarrow> string \<Rightarrow> string \<Rightarrow> string \<Rightarrow> string \<Rightarrow> AuditResult" where
  "createAuditResult auditType url details' linkText' targetUrl' imageFilename' =
     \<lparr>fullUrl = url, type = auditType, details = details', linkText = linkText',
      targetUrl = targetUrl', imageFilename = imageFilename'\<rparr>"

definition handleError :: "jsError \<Rightarrow> string \<Rightarrow> AuditResult list" where
  "handleError error url = []"

definition checkAbortSignal :: "bool \<Rightarrow> jsError + unit" where
  "checkAbortSignal aborted =
     (if aborted then Inl (JsError ''Error'' ''Audit was cancelled'') else Inr ())"

definition containsTriggerPhrase :: "string \<Rightarrow> string list \<Rightarrow> bool" where
  "containsTriggerPhrase text triggerPhrases =
     (let normalizedText = trim (toLowerCase text)
      in list_ex (\<lambda>phrase. includesStr normalizedText (toLowerCase phrase)) triggerPhrases)"

definition containsExcludedPhrase :: "string \<Rightarrow> string list \<Rightarrow> bool" where
  "containsExcludedPhrase text excludedPhrases =
     (let normalizedText = trim (toLowerCase text)
      in list_ex (\<lambda>phrase. includesStr normalizedText (toLowerCase phrase)) excludedPhrases)"

definition extractFilename :: "string \<Rightarrow> string" where
  "extractFilename url =
     (case urlPathname url of
        None \<Rightarrow> []
      | Some pathname \<Rightarrow>
          (case rev (split pathname CHR ''/'') of [] \<Rightarrow> [] | seg # _ \<Rightarrow> seg))"

text \<open>The loop of \<^verbatim>\<open>validateHeadingHierarchy\<close> over the adjacent pairs of the sequence:
  it stops at the first pair whose level rises by more than one.\<close>

fun hierarchyValid :: "number list \<Rightarrow> bool" where
  "hierarchyValid (previous # current # rest) =
     (if gtPlusOne current previous then False else hierarchyValid (current # rest))"
| "hierarchyValid _ = True"

definition validateHeadingHierarchy :: "node list \<Rightarrow> bool \<times> number list" where
  "validateHeadingHierarchy headings =
     (let sequence = map (\<lambda>h. parseInt (charAt (tagName h) 1)) headings
      in (hierarchyValid sequence, sequence))"

definition yesNo :: "bool \<Rightarrow> string" where
  "yesNo b = (if b then ''yes'' else ''no'')"

record tableInfo =
  hasCaption :: bool
  caption :: string
  hasColumnHeaders :: bool
  hasRowHeaders :: bool

definition analyzeTableStructure :: "node \<Rightarrow> tableInfo" where
  "analyzeTableStructure table =
     (let captionEl = querySelector table [Tag ''caption''];
          thead = querySelector table [Tag ''thead''];
          theadHasTh = (case thead of None \<Rightarrow> False
                        | Some t \<Rightarrow> querySelectorAll t [Tag ''th''] \<noteq> []);
          columnHeaders =
            (if theadHasTh then True
             else (case querySelector table [Tag ''tr''] of
                     None \<Rightarrow> False
                   | Some firstRow \<Rightarrow>
                       list_all (\<lambda>cell. tagName cell = ''TH'')
                         (querySelectorAll firstRow [Tag ''th'', Tag ''td''])));
          rowHeaders =
            list_ex (\<lambda>tr. querySelectorAll tr [Tag ''th''] \<noteq> [] \<and> querySelectorAll tr [Tag ''td''] \<noteq> [])
              (querySelectorAll table [Tag ''tr''])
      in \<lparr>hasCaption = (captionEl \<noteq> None),
          caption = (case captionEl of None \<Rightarrow> [] | Some c \<Rightarrow> trim (textContent c)),
          hasColumnHeaders = columnHeaders,
          hasRowHeaders = rowHeaders\<rparr>)"

section \<open>The six auditors\<close>

text \<open>
  Every \<^verbatim>\<open>audit(url, signal)\<close> has the same shape: a \<^verbatim>\<open>try\<close> whose body checks the signal,
  awaits \<^verbatim>\<open>fetchAndParseHTML\<close> and then inspects the document synchronously, and a
  \<^verbatim>\<open>catch\<close> that returns \<^verbatim>\<open>handleError\<close>. The body is a function of the signal's state when
  \<^verbatim>\<open>audit\<close> is called (\<open>aborted0\<close>), of what the fetch did, and of the signal's state when the
  body resumes after the fetch (\<open>aborted1\<close>; the rest of the body runs without yielding).
\<close>

subsection \<open>ImageAuditor\<close>

definition imageStep :: "string \<Rightarrow> bool \<Rightarrow> node \<Rightarrow> AuditResult list \<Rightarrow> jsError + AuditResult list" where
  \<open>imageStep url aborted img results =
     (case checkAbortSignal aborted of
        Inl e \<Rightarrow> Inl e
      | Inr _ \<Rightarrow>
          (let altText = getAttribute img ''alt'';
               src = (case getAttribute img ''src'' of None \<Rightarrow> [] | Some v \<Rightarrow> v);
               filename = extractFilename src;
               missing = createAuditResult IMAGE_MISSING_ALT url [] [] src filename
           in case altText of
                None \<Rightarrow> Inr (results @ [missing])
              | Some alt \<Rightarrow>
                  if alt = [] \<or> trim alt = [] then Inr (results @ [missing])
                  else Inr (results @
                         [\<lparr>fullUrl = url, type = IMAGE_WITH_ALT,
                           details = ''alt="'' @ alt @ ''"'',
                           linkText = [], targetUrl = src, imageFilename = filename\<rparr>])))\<close>

definition imageBody :: "string \<Rightarrow> bool \<Rightarrow> fetchResponse \<Rightarrow> bool \<Rightarrow> jsError + AuditResult list" where
  "imageBody url aborted0 r aborted1 =
     (case checkAbortSignal aborted0 of
        Inl e \<Rightarrow> Inl e
      | Inr _ \<Rightarrow>
          (case fetchAndParseHTML url r of
             Inl e \<Rightarrow> Inl e
           | Inr document \<Rightarrow>
               forEach (docQuerySelectorAll document [Tag ''img'']) (imageStep url aborted1) []))"

subsection \<open>LinkAuditor\<close>

definition TRIGGER_PHRASES :: "string list" where
  "TRIGGER_PHRASES =
     [''click here'', ''read more'', ''learn more'', ''go here'', ''see more'',
      ''click'', ''details'', ''see details'', ''more'', ''see all'', ''view all'']"

definition EXCLUDED_PHRASES :: "string list" where
  "EXCLUDED_PHRASES = [''learn more about us'']"

definition VALID_TLDS :: "string list" where
  "VALID_TLDS = [''.com'', ''.org'', ''.net'', ''.gov'', ''.edu'', ''.info'', ''.io'', ''.co'', ''.us'', ''.ca'']"

definition linkStep :: "string \<Rightarrow> bool \<Rightarrow> node \<Rightarrow> AuditResult list \<Rightarrow> jsError + AuditResult list" where
  "linkStep url aborted link results =
     (case checkAbortSignal aborted of
        Inl e \<Rightarrow> Inl e
      | Inr _ \<Rightarrow>
          (let linkText' = toLowerCase (trim (textContent link));
               href = (case getAttribute link ''href'' of None \<Rightarrow> [] | Some v \<Rightarrow> v)
           in if containsTriggerPhrase linkText' TRIGGER_PHRASES
              then (if \<not> containsExcludedPhrase linkText' EXCLUDED_PHRASES
                    then Inr (results @
                           [createAuditResult INACCESSIBLE_LINK url [] (trim (textContent link)) href []])
                    else Inr results)
              else Inr results))"

definition findInaccessibleLinks :: "node \<Rightarrow> string \<Rightarrow> bool \<Rightarrow> jsError + AuditResult list" where
  "findInaccessibleLinks document url aborted =
     forEach (docQuerySelectorAll document [TagAttr ''a'' ''href'']) (linkStep url aborted) []"

text \<open>
  \<^verbatim>\<open>visibleText.match(RAW_URL_PATTERN)\<close> for the pattern
  \<^verbatim>\<open>(?<!@)\b(?:https?:\/\/|www\.)[a-zA-Z0-9.-]+\.[a-zA-Z]{2,}(?:\/[^\s<>"']*)?\<close> with the global flag.
  A match starts where the previous character is neither \<^verbatim>\<open>@\<close> nor a word character; the
  greedy host part gives back characters until a dot followed by two letters remains, so the
  last such dot of the host run is taken; the top-level domain takes every letter that
  follows, and a path, if a slash comes next, every character up to white space or one of
  \<^verbatim>\<open><>"'\<close>. The scan resumes after each match.
\<close>

definition isWordChar :: "char \<Rightarrow> bool" where
  "isWordChar c = (isAlnum c \<or> c = CHR ''_'')"

definition isHostChar :: "char \<Rightarrow> bool" where
  "isHostChar c = (isAlnum c \<or> c = CHR ''.'' \<or> c = CHR ''-'')"

definition isPathChar :: "char \<Rightarrow> bool" where
  \<open>isPathChar c = (\<not> isSpace c \<and> c \<noteq> CHR ''<'' \<and> c \<noteq> CHR ''>'' \<and> c \<noteq> CHR ''"'' \<and> c \<noteq> CHR 0x27)\<close>

definition urlPrefixLength :: "string \<Rightarrow> nat option" where
  "urlPrefixLength t =
     (if startsWith t ''https://'' then Some 8
      else if startsWith t ''http://'' then Some 7
      else if startsWith t ''www.'' then Some 4
      else None)"

definition twoLetters :: "string \<Rightarrow> bool" where
  "twoLetters cs = (case cs of a # b # _ \<Rightarrow> isAlpha a \<and> isAlpha b | _ \<Rightarrow> False)"

fun hostEnd :: "string \<Rightarrow> nat \<Rightarrow> nat option \<Rightarrow> nat option" where
  "hostEnd [] i best = best"
| "hostEnd (c # cs) i best =
     hostEnd cs (Suc i) (if 1 \<le> i \<and> c = CHR ''.'' \<and> twoLetters cs then Some i else best)"

definition matchAt :: "string \<Rightarrow> string option" where
  "matchAt t =
     (case urlPrefixLength t of
        None \<Rightarrow> None
      | Some n \<Rightarrow>
          (let u = drop n t
           in case hostEnd (takeWhile isHostChar u) 0 None of
                None \<Rightarrow> None
              | Some p \<Rightarrow>
                  (let afterDot = drop (Suc p) u;
                       tld = takeWhile isAlpha afterDot;
                       path = (case drop (length tld) afterDot of
                                 [] \<Rightarrow> []
                               | c # cs \<Rightarrow> if c = CHR ''/'' then c # takeWhile isPathChar cs else [])
                   in Some (take n t @ take (Suc p) u @ tld @ path))))"

definition boundaryBefore :: "char option \<Rightarrow> bool" where
  "boundaryBefore prev = (case prev of None \<Rightarrow> True | Some c \<Rightarrow> c \<noteq> CHR ''@'' \<and> \<not> isWordChar c)"

fun matchAll :: "char option \<Rightarrow> nat \<Rightarrow> string \<Rightarrow> string list" where
  "matchAll prev skip [] = []"
| "matchAll prev skip (c # cs) =
     (if 0 < skip then matchAll (Some c) (skip - 1) cs
      else (case (if boundaryBefore prev then matchAt (c # cs) else None) of
              None \<Rightarrow> matchAll (Some c) 0 cs
            | Some m \<Rightarrow> m # matchAll (Some c) (length m - 1) cs))"

definition matchRawUrls :: "string \<Rightarrow> string list" where
  "matchRawUrls visibleText = matchAll None 0 visibleText"

definition isValidUrl :: "string \<Rightarrow> bool" where
  "isValidUrl url =
     (if includesStr url ''mailto:'' \<or> includesStr url ''@'' then False
      else list_ex (\<lambda>tld. endsWith (toLowerCase url) tld) VALID_TLDS)"

definition rawUrlStep :: "string \<Rightarrow> bool \<Rightarrow> string \<Rightarrow> AuditResult list \<Rightarrow> jsError + AuditResult list" where
  "rawUrlStep url aborted rawUrl results =
     (case checkAbortSignal aborted of
        Inl e \<Rightarrow> Inl e
      | Inr _ \<Rightarrow>
          (let fullUrl' = (if \<not> startsWith rawUrl ''http://'' \<and> \<not> startsWith rawUrl ''https://''
                           then ''https://'' @ rawUrl else rawUrl)
           in if isValidUrl fullUrl'
              then Inr (results @ [createAuditResult INACCESSIBLE_LINK url [] [] fullUrl' []])
              else Inr results))"

text \<open>Reading \<^verbatim>\<open>document.body.textContent\<close> of a document without a body throws a \<^verbatim>\<open>TypeError\<close>.\<close>

definition findRawUrls :: "node \<Rightarrow> string \<Rightarrow> bool \<Rightarrow> jsError + AuditResult list" where
  "findRawUrls document url aborted =
     (case checkAbortSignal aborted of
        Inl e \<Rightarrow> Inl e
      | Inr _ \<Rightarrow>
          (case body document of
             None \<Rightarrow> Inl (JsError ''TypeError'' ''Cannot read properties of null'')
           | Some b \<Rightarrow> forEach (matchRawUrls (textContent b)) (rawUrlStep url aborted) []))"

definition linkBody :: "string \<Rightarrow> bool \<Rightarrow> fetchResponse \<Rightarrow> bool \<Rightarrow> jsError + AuditResult list" where
  "linkBody url aborted0 r aborted1 =
     (case checkAbortSignal aborted0 of
        Inl e \<Rightarrow> Inl e
      | Inr _ \<Rightarrow>
          (case fetchAndParseHTML url r of
             Inl e \<Rightarrow> Inl e
           | Inr document \<Rightarrow>
               (case findInaccessibleLinks document url aborted1 of
                  Inl e \<Rightarrow> Inl e
                | Inr links \<Rightarrow>
                    (case findRawUrls document url aborted1 of
                       Inl e \<Rightarrow> Inl e
                     | Inr raw \<Rightarrow> Inr (links @ raw)))))"

subsection \<open>ButtonAuditor\<close>

definition trimmedAttribute :: "node \<Rightarrow> string \<Rightarrow> string" where
  "trimmedAttribute element a = (case getAttribute element a of None \<Rightarrow> [] | Some v \<Rightarrow> trim v)"

definition extractButtonLabel :: "node \<Rightarrow> node \<Rightarrow> string" where
  "extractButtonLabel document element =
     (if trimmedAttribute element ''aria-label'' \<noteq> [] then trimmedAttribute element ''aria-label''
      else if trimmedAttribute element ''title'' \<noteq> [] then trimmedAttribute element ''title''
      else if trimmedAttribute element ''value'' \<noteq> [] then trimmedAttribute element ''value''
      else if trim (textContent element) \<noteq> [] then trim (textContent element)
      else (case getAttribute element ''aria-labelledby'' of
              None \<Rightarrow> []
            | Some labelledBy \<Rightarrow>
                if labelledBy = [] then []
                else (case getElementById document labelledBy of
                        None \<Rightarrow> []
                      | Some labelElement \<Rightarrow> trim (textContent labelElement))))"

text \<open>\<^verbatim>\<open>className\<close> is read as the \<^verbatim>\<open>class\<close> attribute, a string; for an element in the SVG
  namespace it is an object and \<^verbatim>\<open>className.includes\<close> throws, which is not modelled (the
  \<^verbatim>\<open>catch\<close> of \<^verbatim>\<open>audit\<close> turns it into the empty list).\<close>

definition isIconOnlyButton :: "node \<Rightarrow> bool \<Rightarrow> bool" where
  "isIconOnlyButton element hasLabel =
     (if hasLabel then False
      else (let hasSvg = (querySelector element [Tag ''svg''] \<noteq> None);
                className = (case getAttribute element ''class'' of None \<Rightarrow> [] | Some v \<Rightarrow> v);
                hasIconClass = (includesStr className ''icon'' \<or> includesStr className ''fa-'' \<or>
                                includesStr className ''glyphicon'' \<or>
                                includesStr className ''material-icons'');
                hasIconImage = (querySelector element [Tag ''img''] \<noteq> None)
            in hasSvg \<or> hasIconClass \<or> hasIconImage))"

definition buttonStep ::
  "node \<Rightarrow> string \<Rightarrow> bool \<Rightarrow> node \<Rightarrow> AuditResult list \<Rightarrow> jsError + AuditResult list" where
  "buttonStep document url aborted element results =
     (case checkAbortSignal aborted of
        Inl e \<Rightarrow> Inl e
      | Inr _ \<Rightarrow>
          (let label = extractButtonLabel document element;
               labelText = toLowerCase (trim label);
               hasLabel = (labelText \<noteq> []);
               isIconOnly = isIconOnlyButton element hasLabel;
               hasVagueLabel = (hasLabel \<and> containsTriggerPhrase labelText TRIGGER_PHRASES);
               isExcluded = containsExcludedPhrase labelText EXCLUDED_PHRASES
           in if (isIconOnly \<or> \<not> hasLabel \<or> hasVagueLabel) \<and> \<not> isExcluded
              then (let details' = (if isIconOnly then ''Missing accessible label (icon-only)''
                                    else if \<not> hasLabel then ''Missing accessible label''
                                    else ''Vague button label'')
                    in Inr (results @ [createAuditResult INACCESSIBLE_BUTTON url details' label [] []]))
              else Inr results))"

definition buttonBody :: "string \<Rightarrow> bool \<Rightarrow> fetchResponse \<Rightarrow> bool \<Rightarrow> jsError + AuditResult list" where
  "buttonBody url aborted0 r aborted1 =
     (case checkAbortSignal aborted0 of
        Inl e \<Rightarrow> Inl e
      | Inr _ \<Rightarrow>
          (case fetchAndParseHTML url r of
             Inl e \<Rightarrow> Inl e
           | Inr document \<Rightarrow>
               forEach
                 (docQuerySelectorAll document [Tag ''button''] @
                  docQuerySelectorAll document
                    [TagAttrEq ''input'' ''type'' ''submit'', TagAttrEq ''input'' ''type'' ''button''])
                 (buttonStep document url aborted1) []))"

subsection \<open>HeadingAuditor\<close>

definition headingSelectors :: "selector list" where
  "headingSelectors = [Tag ''h1'', Tag ''h2'', Tag ''h3'', Tag ''h4'', Tag ''h5'', Tag ''h6'']"

definition headingBody :: "string \<Rightarrow> bool \<Rightarrow> fetchResponse \<Rightarrow> bool \<Rightarrow> jsError + AuditResult list" where
  "headingBody url aborted0 r aborted1 =
     (case checkAbortSignal aborted0 of
        Inl e \<Rightarrow> Inl e
      | Inr _ \<Rightarrow>
          (case fetchAndParseHTML url r of
             Inl e \<Rightarrow> Inl e
           | Inr document \<Rightarrow>
               (let headings = docQuerySelectorAll document headingSelectors
                in if headings = [] then Inr []
                   else (case checkAbortSignal aborted1 of
                           Inl e \<Rightarrow> Inl e
                         | Inr _ \<Rightarrow>
                             (case validateHeadingHierarchy headings of
                                (isValid, sequence) \<Rightarrow>
                                  if \<not> isValid
                                  then Inr [createAuditResult HEADING_HIERARCHY url
                                              (''Improper heading sequence: '' @
                                               join (map numberToString sequence) '', '')
                                              [] [] []]
                                  else Inr [])))))"

subsection \<open>TableAuditor\<close>

definition tableStep :: "string \<Rightarrow> bool \<Rightarrow> node \<Rightarrow> AuditResult list \<Rightarrow> jsError + AuditResult list" where
  "tableStep url aborted table results =
     (case checkAbortSignal aborted of
        Inl e \<Rightarrow> Inl e
      | Inr _ \<Rightarrow>
          (let info = analyzeTableStructure table;
               details' = join
                 [''Caption: '' @ (if caption info = [] then ''none'' else caption info),
                  ''Row headers: '' @ yesNo (hasRowHeaders info),
                  ''Column headers: '' @ yesNo (hasColumnHeaders info)] '', ''
           in Inr (results @ [createAuditResult TABLE_INFO url details' [] [] []])))"

definition tableBody :: "string \<Rightarrow> bool \<Rightarrow> fetchResponse \<Rightarrow> bool \<Rightarrow> jsError + AuditResult list" where
  "tableBody url aborted0 r aborted1 =
     (case checkAbortSignal aborted0 of
        Inl e \<Rightarrow> Inl e
      | Inr _ \<Rightarrow>
          (case fetchAndParseHTML url r of
             Inl e \<Rightarrow> Inl e
           | Inr document \<Rightarrow>
               forEach (docQuerySelectorAll document [Tag ''table'']) (tableStep url aborted1) []))"

subsection \<open>DocumentAuditor\<close>

definition OFFICE_EXTENSIONS :: "string list" where
  "OFFICE_EXTENSIONS = [''.doc'', ''.docx'', ''.xls'', ''.xlsx'', ''.ppt'', ''.pptx'']"

definition PDF_EXTENSION :: string where
  "PDF_EXTENSION = ''.pdf''"

definition resolveUrl :: "string \<Rightarrow> string \<Rightarrow> string" where
  "resolveUrl href baseUrl = (case urlResolve href baseUrl of None \<Rightarrow> href | Some h \<Rightarrow> h)"

definition firstPart :: "string \<Rightarrow> char \<Rightarrow> string" where
  "firstPart s sep = (case split s sep of [] \<Rightarrow> [] | x # _ \<Rightarrow> x)"

definition documentStep :: "string \<Rightarrow> bool \<Rightarrow> node \<Rightarrow> AuditResult list \<Rightarrow> jsError + AuditResult list" where
  "documentStep url aborted link results =
     (case checkAbortSignal aborted of
        Inl e \<Rightarrow> Inl e
      | Inr _ \<Rightarrow>
          (let href = (case getAttribute link ''href'' of None \<Rightarrow> [] | Some v \<Rightarrow> v);
               linkText' = trim (textContent link);
               cleanHref = firstPart (firstPart href CHR ''?'') CHR ''#'';
               pdf = (if endsWith (toLowerCase cleanHref) PDF_EXTENSION
                      then [createAuditResult PDF_LINK url [] linkText' (resolveUrl href url) []]
                      else []);
               office = (if list_ex (\<lambda>ext. endsWith (toLowerCase cleanHref) ext) OFFICE_EXTENSIONS
                         then [\<lparr>fullUrl = url, type = OFFICE_LINK, details = [],
                                linkText = linkText', targetUrl = resolveUrl href url,
                                imageFilename = []\<rparr>]
                         else [])
           in Inr (results @ pdf @ office)))"

definition documentBody :: "string \<Rightarrow> bool \<Rightarrow> fetchResponse \<Rightarrow> bool \<Rightarrow> jsError + AuditResult list" where
  "documentBody url aborted0 r aborted1 =
     (case checkAbortSignal aborted0 of
        Inl e \<Rightarrow> Inl e
      | Inr _ \<Rightarrow>
          (case fetchAndParseHTML url r of
             Inl e \<Rightarrow> Inl e
           | Inr document \<Rightarrow>
               forEach (docQuerySelectorAll document [TagAttr ''a'' ''href'']) (documentStep url aborted1) []))"

subsection \<open>The rule set\<close>

datatype auditor =
  ImageAuditor | LinkAuditor | ButtonAuditor | HeadingAuditor | TableAuditor | DocumentAuditor

fun auditBody :: "auditor \<Rightarrow> string \<Rightarrow> bool \<Rightarrow> fetchResponse \<Rightarrow> bool \<Rightarrow> jsError + AuditResult list" where
  "auditBody ImageAuditor = imageBody"
| "auditBody LinkAuditor = linkBody"
| "auditBody ButtonAuditor = buttonBody"
| "auditBody HeadingAuditor = headingBody"
| "auditBody TableAuditor = tableBody"
| "auditBody DocumentAuditor = documentBody"

text \<open>\<^verbatim>\<open>audit\<close>: the body inside \<^verbatim>\<open>try\<close>, with \<^verbatim>\<open>catch (error) { return this.handleError(error, url) }\<close>.
  \<open>Inl\<close> would be a rejected promise.\<close>

definition audit :: "auditor \<Rightarrow> string \<Rightarrow> bool \<Rightarrow> fetchResponse \<Rightarrow> bool \<Rightarrow> jsError + AuditResult list" where
  "audit a url aborted0 r aborted1 =
     (case auditBody a url aborted0 r aborted1 of
        Inl error \<Rightarrow> Inr (handleError error url)
      | Inr results \<Rightarrow> Inr results)"

text \<open>The list the constructor of \<^verbatim>\<open>AuditEngine\<close> builds.\<close>

definition auditors :: "auditor list" where
  "auditors = [ImageAuditor, LinkAuditor, ButtonAuditor, HeadingAuditor, TableAuditor, DocumentAuditor]"

section \<open>rateLimiter.ts\<close>

text \<open>
  JavaScript runs one callback at a time. A run of \<^verbatim>\<open>processItems\<close> is therefore a sequence
  of atomic steps, each the piece of code between two suspension points, and the state
  between steps says which pieces are waiting to run. The fields of the class and the
  variable \<^verbatim>\<open>completed\<close> of the closure are kept as they are; the signal is its
  \<^verbatim>\<open>aborted\<close> flag; the remaining fields count the suspended pieces:
  \<^item> \<open>timers\<close>: calls of \<^verbatim>\<open>processNext\<close> queued by \<^verbatim>\<open>setTimeout(processNext, 0)\<close>;
  \<^item> \<open>sleeping\<close>: calls of \<^verbatim>\<open>processNext\<close> inside the pause loop, awaiting its 100 ms timer;
  \<^item> \<open>running\<close>: the indices of the items whose \<^verbatim>\<open>await processor(item)\<close> has not resumed
    yet, that is, the workers in flight;
  \<^item> \<open>delaying\<close>: \<^verbatim>\<open>finally\<close> blocks awaiting the delay between batches.
  \<open>claimed\<close> is instrumentation: the indices handed to the processor, in order.
\<close>

record config =
  maxConcurrent :: int
  delayBetweenBatches :: int

datatype promiseState = Pending | Resolved | Rejected jsError

record limiter =
  activeRequests :: int
  isPaused :: bool
  isCancelled :: bool
  aborted :: bool
  completed :: nat
  promise :: promiseState
  timers :: nat
  sleeping :: nat
  running :: "nat list"
  delaying :: nat
  claimed :: "nat list"

text \<open>A promise settles once: later calls of \<^verbatim>\<open>resolve\<close> and \<^verbatim>\<open>reject\<close> do nothing.\<close>

definition resolve :: "limiter \<Rightarrow> limiter" where
  "resolve s = (if promise s = Pending then s\<lparr>promise := Resolved\<rparr> else s)"

definition reject :: "jsError \<Rightarrow> limiter \<Rightarrow> limiter" where
  "reject e s = (if promise s = Pending then s\<lparr>promise := Rejected e\<rparr> else s)"

text \<open>\<^verbatim>\<open>processNext\<close> from the end of the pause loop to \<^verbatim>\<open>await processor(item)\<close>.\<close>

definition afterPause :: "config \<Rightarrow> 'a list \<Rightarrow> limiter \<Rightarrow> limiter" where
  "afterPause cfg items s =
     (if completed s \<ge> length items then resolve s
      else if activeRequests s \<ge> maxConcurrent cfg then s
      else s\<lparr>claimed := claimed s @ [completed s],
              running := running s @ [completed s],
              completed := completed s + 1,
              activeRequests := activeRequests s + 1\<rparr>)"

text \<open>\<^verbatim>\<open>processNext\<close> from its call to its first suspension point.\<close>

definition processNext :: "config \<Rightarrow> 'a list \<Rightarrow> limiter \<Rightarrow> limiter" where
  "processNext cfg items s =
     (if isCancelled s \<or> aborted s then reject (JsError ''Error'' ''Processing cancelled'') s
      else if isPaused s \<and> \<not> isCancelled s \<and> \<not> aborted s then s\<lparr>sleeping := sleeping s + 1\<rparr>
      else afterPause cfg items s)"

text \<open>One turn of the pause loop: the 100 ms timer of a sleeping call fires and the loop
  condition is tested again.\<close>

definition pauseTick :: "config \<Rightarrow> 'a list \<Rightarrow> limiter \<Rightarrow> limiter" where
  "pauseTick cfg items s =
     (if sleeping s = 0 then s
      else if isPaused s \<and> \<not> isCancelled s \<and> \<not> aborted s then s
      else afterPause cfg items (s\<lparr>sleeping := sleeping s - 1\<rparr>))"

text \<open>The processor's promise for item \<open>i\<close> has settled (fulfilled, or rejected and caught):
  the \<^verbatim>\<open>finally\<close> block up to its \<^verbatim>\<open>await\<close> or its end.\<close>

definition finallyBlock :: "config \<Rightarrow> 'a list \<Rightarrow> nat \<Rightarrow> limiter \<Rightarrow> limiter" where
  "finallyBlock cfg items i s =
     (if i \<notin> set (running s) then s
      else (let s1 = s\<lparr>running := remove1 i (running s), activeRequests := activeRequests s - 1\<rparr>
            in if delayBetweenBatches cfg > 0 \<and> activeRequests s1 = 0 \<and> completed s1 < length items
               then s1\<lparr>delaying := delaying s1 + 1\<rparr>
               else s1\<lparr>timers := timers s1 + 1\<rparr>))"

definition delayElapsed :: "limiter \<Rightarrow> limiter" where
  "delayElapsed s =
     (if delaying s = 0 then s else s\<lparr>delaying := delaying s - 1, timers := timers s + 1\<rparr>)"

definition timerFires :: "config \<Rightarrow> 'a list \<Rightarrow> limiter \<Rightarrow> limiter" where
  "timerFires cfg items s =
     (if timers s = 0 then s else processNext cfg items (s\<lparr>timers := timers s - 1\<rparr>))"

definition pause :: "limiter \<Rightarrow> limiter" where
  "pause s = s\<lparr>isPaused := True\<rparr>"

definition resume :: "limiter \<Rightarrow> limiter" where
  "resume s = s\<lparr>isPaused := False\<rparr>"

definition cancel :: "limiter \<Rightarrow> limiter" where
  "cancel s = s\<lparr>isCancelled := True\<rparr>"

definition abort :: "limiter \<Rightarrow> limiter" where
  "abort s = s\<lparr>aborted := True\<rparr>"

text \<open>The constructor, and \<^verbatim>\<open>processItems\<close> up to the end of its \<^verbatim>\<open>for\<close> loop, called on
  the new limiter with a signal that has not fired.\<close>

definition newRateLimiter :: limiter where
  "newRateLimiter =
     \<lparr>activeRequests = 0, isPaused = False, isCancelled = False, aborted = False,
      completed = 0, promise = Pending, timers = 0, sleeping = 0, running = [],
      delaying = 0, claimed = []\<rparr>"

definition initialBatch :: "config \<Rightarrow> 'a list \<Rightarrow> nat" where
  "initialBatch cfg items = nat (min (maxConcurrent cfg) (int (length items)))"

definition processItems :: "config \<Rightarrow> 'a list \<Rightarrow> limiter \<Rightarrow> limiter" where
  "processItems cfg items s =
     ((processNext cfg items) ^^ (initialBatch cfg items)) (s\<lparr>isCancelled := False\<rparr>)"

text \<open>What can happen next: a queued callback runs, a worker settles, or the caller pauses,
  resumes or cancels. A step that is not enabled leaves the state as it is.\<close>

datatype event =
    TimerFires | PauseTick | Settles nat | DelayElapsed
  | CallPause | CallResume | CallCancel | SignalAbort

fun step :: "config \<Rightarrow> 'a list \<Rightarrow> limiter \<Rightarrow> event \<Rightarrow> limiter" where
  "step cfg items s TimerFires = timerFires cfg items s"
| "step cfg items s PauseTick = pauseTick cfg items s"
| "step cfg items s (Settles i) = finallyBlock cfg items i s"
| "step cfg items s DelayElapsed = delayElapsed s"
| "step cfg items s CallPause = pause s"
| "step cfg items s CallResume = resume s"
| "step cfg items s CallCancel = cancel s"
| "step cfg items s SignalAbort = abort s"

definition run :: "config \<Rightarrow> 'a list \<Rightarrow> event list \<Rightarrow> limiter" where
  "run cfg items es = foldl (step cfg items) (processItems cfg items newRateLimiter) es"

definition tokens :: "limiter \<Rightarrow> nat" where
  "tokens s = timers s + sleeping s + delaying s + length (running s)"

text \<open>The test that lets \<^verbatim>\<open>processNext\<close> reach \<^verbatim>\<open>await processor(item)\<close>.\<close>

definition canClaim :: "config \<Rightarrow> 'a list \<Rightarrow> limiter \<Rightarrow> bool" where
  "canClaim cfg items s = (completed s < length items \<and> activeRequests s < maxConcurrent cfg)"

text \<open>One more item is claimed, or, when none is left, the promise is resolved.\<close>

definition advanced :: "config \<Rightarrow> 'a list \<Rightarrow> limiter \<Rightarrow> limiter \<Rightarrow> bool" where
  "advanced cfg items s s' =
     (if completed s < length items
      then completed s' = Suc (completed s) \<and> promise s' = Pending
      else promise s' = Resolved)"

section \<open>auditEngine.ts\<close>

text \<open>
  The engine is the rate limiter with \<^verbatim>\<open>processUrl\<close> as its processor. A call of
  \<^verbatim>\<open>processUrl(urls[i])\<close> is in one of these states: not called yet; inside the pause loop;
  inside \<^verbatim>\<open>auditUrl\<close>, awaiting the fetch of the auditor of a given index with the results
  collected so far; returned; or thrown (the signal had fired when it was called).
\<close>

datatype worker = Idle | Sleeping | Fetching nat "AuditResult list" | Returned | Thrown

text \<open>The calls of the four callbacks. An \<^verbatim>\<open>AuditError\<close> is kept without its time stamp.\<close>

datatype callback =
    OnProgress string nat nat
  | OnResults "AuditResult list"
  | OnError string string
  | OnComplete

text \<open>Instrumentation: the place of a call in the source and the index of the url it is
  made for. \<open>AtStart\<close> and \<open>AtEnd\<close> are the two calls of \<^verbatim>\<open>onProgress\<close> in \<^verbatim>\<open>processUrl\<close>,
  \<open>InTry\<close> and \<open>InCatch\<close> the calls of \<^verbatim>\<open>onResults\<close> and \<^verbatim>\<open>onError\<close> there, \<open>InStartAudit\<close>
  the calls in \<^verbatim>\<open>startAudit\<close>.\<close>

datatype site = AtStart nat | AtEnd nat | InTry nat | InCatch nat | InStartAudit

record engine =
  rateLimiter :: limiter
  enginePaused :: bool
  urlsCompleted :: nat
  workers :: "nat \<Rightarrow> worker"
  calls :: "(site \<times> callback) list"

definition call :: "site \<Rightarrow> callback \<Rightarrow> engine \<Rightarrow> engine" where
  "call at c s = s\<lparr>calls := calls s @ [(at, c)]\<rparr>"

definition signalAborted :: "engine \<Rightarrow> bool" where
  "signalAborted s = aborted (rateLimiter s)"

text \<open>\<^verbatim>\<open>processUrl\<close> after \<^verbatim>\<open>await this.auditUrl(url)\<close>: the rest of the \<^verbatim>\<open>try\<close>, the \<^verbatim>\<open>catch\<close>,
  and the second progress report.\<close>

definition afterAuditUrl :: "string list \<Rightarrow> nat \<Rightarrow> jsError + AuditResult list \<Rightarrow> engine \<Rightarrow> engine" where
  "afterAuditUrl urls i outcome s =
     (let s1 = (case outcome of
                  Inr urlResults \<Rightarrow> if urlResults \<noteq> [] then call (InTry i) (OnResults urlResults) s else s
                | Inl error \<Rightarrow> call (InCatch i) (OnError (urls ! i) (errorMessage error)) s);
          c = urlsCompleted s1 + 1
      in call (AtEnd i) (OnProgress (if c < length urls then urls ! c else []) c (length urls))
           (s1\<lparr>urlsCompleted := c, workers := (workers s1)(i := Returned)\<rparr>))"

text \<open>The loop of \<^verbatim>\<open>auditUrl\<close> at the auditor of index \<open>j\<close>: it ends after the last auditor,
  breaks when the signal has fired, and otherwise calls \<^verbatim>\<open>audit\<close>, which suspends at its
  fetch. \<^verbatim>\<open>auditUrl\<close> catches whatever an auditor throws, so it always returns its list.\<close>

definition auditUrlFrom :: "string list \<Rightarrow> nat \<Rightarrow> nat \<Rightarrow> AuditResult list \<Rightarrow> engine \<Rightarrow> engine" where
  "auditUrlFrom urls i j allResults s =
     (if j < length auditors \<and> \<not> signalAborted s
      then s\<lparr>workers := (workers s)(i := Fetching j allResults)\<rparr>
      else afterAuditUrl urls i (Inr allResults) s)"

text \<open>\<^verbatim>\<open>processUrl\<close> from the end of its pause loop to its first suspension point.\<close>

definition afterPauseUrl :: "string list \<Rightarrow> nat \<Rightarrow> engine \<Rightarrow> engine" where
  "afterPauseUrl urls i s =
     auditUrlFrom urls i 0 []
       (call (AtStart i) (OnProgress (urls ! i) (urlsCompleted s) (length urls)) s)"

text \<open>\<^verbatim>\<open>processUrl(urls[i])\<close> from its call to its first suspension point.\<close>

definition processUrl :: "string list \<Rightarrow> nat \<Rightarrow> engine \<Rightarrow> engine" where
  "processUrl urls i s =
     (if signalAborted s then s\<lparr>workers := (workers s)(i := Thrown)\<rparr>
      else if enginePaused s \<and> \<not> signalAborted s then s\<lparr>workers := (workers s)(i := Sleeping)\<rparr>
      else afterPauseUrl urls i s)"

text \<open>One turn of the pause loop of \<^verbatim>\<open>processUrl\<close>.\<close>

definition workerPauseTick :: "string list \<Rightarrow> nat \<Rightarrow> engine \<Rightarrow> engine" where
  "workerPauseTick urls i s =
     (if workers s i \<noteq> Sleeping then s
      else if enginePaused s \<and> \<not> signalAborted s then s
      else afterPauseUrl urls i s)"

text \<open>The fetch of the auditor a worker is waiting for ends with response \<open>r\<close>: the auditor
  finishes (the signal was clear when \<^verbatim>\<open>auditUrl\<close> called it), \<^verbatim>\<open>auditUrl\<close> appends its
  results, or ignores its error, and goes on to the next auditor.\<close>

definition fetchReturns :: "string list \<Rightarrow> nat \<Rightarrow> fetchResponse \<Rightarrow> engine \<Rightarrow> engine" where
  "fetchReturns urls i r s =
     (case workers s i of
        Fetching j allResults \<Rightarrow>
          (case audit (auditors ! j) (urls ! i) False r (signalAborted s) of
             Inr results \<Rightarrow> auditUrlFrom urls i (Suc j) (allResults @ results) s
           | Inl error \<Rightarrow> auditUrlFrom urls i (Suc j) allResults s)
      | _ \<Rightarrow> s)"

text \<open>\<^verbatim>\<open>startAudit\<close> after \<^verbatim>\<open>await this.processUrls(urls)\<close>, run when the promise of
  \<^verbatim>\<open>processItems\<close> settles.\<close>

definition startAuditSettles :: "promiseState \<Rightarrow> engine \<Rightarrow> engine" where
  "startAuditSettles old s =
     (if old \<noteq> Pending then s
      else (case promise (rateLimiter s) of
              Pending \<Rightarrow> s
            | Resolved \<Rightarrow> call InStartAudit OnComplete s
            | Rejected error \<Rightarrow>
                if errorName error \<noteq> ''AbortError''
                then call InStartAudit (OnError ''system'' (errorMessage error)) s
                else s))"

text \<open>A piece of the limiter's code run inside the engine: when it claims an item it calls
  the processor, here \<^verbatim>\<open>processUrl\<close>, on it; when it settles the promise, \<^verbatim>\<open>startAudit\<close>
  resumes.\<close>

definition inLimiter :: "string list \<Rightarrow> (limiter \<Rightarrow> limiter) \<Rightarrow> engine \<Rightarrow> engine" where
  "inLimiter urls f s =
     (let old = rateLimiter s;
          new = f old;
          s1 = s\<lparr>rateLimiter := new\<rparr>;
          s2 = (if completed new = Suc (completed old)
                then processUrl urls (completed old) s1 else s1)
      in startAuditSettles (promise old) s2)"

definition workerSettled :: "worker \<Rightarrow> bool" where
  "workerSettled w = (w = Returned \<or> w = Thrown)"

datatype action =
    TimerRuns | LimiterPauseTick | WorkerSettles nat | DelayEnds
  | WorkerPauseTick nat | FetchReturns nat fetchResponse
  | Pause | Resume | Cancel

fun engineStep :: "config \<Rightarrow> string list \<Rightarrow> engine \<Rightarrow> action \<Rightarrow> engine" where
  "engineStep cfg urls s TimerRuns = inLimiter urls (timerFires cfg urls) s"
| "engineStep cfg urls s LimiterPauseTick = inLimiter urls (pauseTick cfg urls) s"
| "engineStep cfg urls s (WorkerSettles i) =
     (if workerSettled (workers s i) then inLimiter urls (finallyBlock cfg urls i) s else s)"
| "engineStep cfg urls s DelayEnds = inLimiter urls delayElapsed s"
| "engineStep cfg urls s (WorkerPauseTick i) = workerPauseTick urls i s"
| "engineStep cfg urls s (FetchReturns i r) = fetchReturns urls i r s"
| "engineStep cfg urls s Pause = s\<lparr>enginePaused := True, rateLimiter := pause (rateLimiter s)\<rparr>"
| "engineStep cfg urls s Resume = s\<lparr>enginePaused := False, rateLimiter := resume (rateLimiter s)\<rparr>"
| "engineStep cfg urls s Cancel = s\<lparr>rateLimiter := cancel (abort (rateLimiter s))\<rparr>"

text \<open>The constructor of \<^verbatim>\<open>AuditEngine\<close> followed by \<^verbatim>\<open>startAudit(urls)\<close> up to the end of the
  \<^verbatim>\<open>for\<close> loop of \<^verbatim>\<open>processItems\<close>.\<close>

definition newAuditEngine :: engine where
  "newAuditEngine =
     \<lparr>rateLimiter = newRateLimiter, enginePaused = False, urlsCompleted = 0,
      workers = (\<lambda>i. Idle), calls = []\<rparr>"

definition startAudit :: "config \<Rightarrow> string list \<Rightarrow> engine" where
  "startAudit cfg urls =
     ((inLimiter urls (processNext cfg urls)) ^^ (initialBatch cfg urls))
       (newAuditEngine\<lparr>enginePaused := False,
          rateLimiter := (rateLimiter newAuditEngine)\<lparr>isCancelled := False\<rparr>\<rparr>)"

definition audit_run :: "config \<Rightarrow> string list \<Rightarrow> action list \<Rightarrow> engine" where
  "audit_run cfg urls as = foldl (engineStep cfg urls) (startAudit cfg urls) as"

definition startsOf :: "nat \<Rightarrow> engine \<Rightarrow> nat" where
  "startsOf i s = length (filter (\<lambda>c. fst c = AtStart i) (calls s))"

definition endsOf :: "nat \<Rightarrow> engine \<Rightarrow> nat" where
  "endsOf i s = length (filter (\<lambda>c. fst c = AtEnd i) (calls s))"

text \<open>Nothing is left to run: no queued or sleeping call, no delay, no worker in flight.\<close>

definition quiescent :: "engine \<Rightarrow> bool" where
  "quiescent s = (tokens (rateLimiter s) = 0)"

section \<open>Invariants of a run of the engine\<close>

definition inFlight :: "worker \<Rightarrow> bool" where
  "inFlight w = (case w of Sleeping \<Rightarrow> True | Fetching j acc \<Rightarrow> True | _ \<Rightarrow> False)"

definition started :: "worker \<Rightarrow> bool" where
  "started w = (case w of Fetching j acc \<Rightarrow> True | Returned \<Rightarrow> True | _ \<Rightarrow> False)"

text \<open>What the state of the call of \<^verbatim>\<open>processUrl\<close> for the url of index \<open>i\<close> says about the
  limiter and about the progress reports made for that url.\<close>

definition workerInv :: "engine \<Rightarrow> nat \<Rightarrow> bool" where
  "workerInv s i =
     ((workers s i = Idle) = (completed (rateLimiter s) \<le> i) \<and>
      (inFlight (workers s i) \<longrightarrow> i \<in> set (running (rateLimiter s))) \<and>
      startsOf i s = (if started (workers s i) then 1 else 0) \<and>
      endsOf i s = (if workers s i = Returned then 1 else 0) \<and>
      (workers s i = Thrown \<longrightarrow> signalAborted s))"

definition returnedSet :: "string list \<Rightarrow> engine \<Rightarrow> nat set" where
  "returnedSet urls s = {i. i < length urls \<and> workers s i = Returned}"

definition isErrorCall :: "site \<times> callback \<Rightarrow> bool" where
  "isErrorCall c = (case snd c of OnError u m \<Rightarrow> True | _ \<Rightarrow> False)"

text \<open>What \<^verbatim>\<open>auditUrl\<close> appends for the auditor of index \<open>j\<close>: its results, nothing if it threw.\<close>

definition auditResults :: "string list \<Rightarrow> nat \<Rightarrow> nat \<Rightarrow> fetchResponse \<Rightarrow> engine \<Rightarrow> AuditResult list" where
  "auditResults urls i j r s =
     (case audit (auditors ! j) (urls ! i) False r (signalAborted s) of Inr rs \<Rightarrow> rs | Inl e \<Rightarrow> [])"

text \<open>The last progress report made at the end of a url carries the current count.\<close>

definition lastReported :: "string list \<Rightarrow> engine \<Rightarrow> bool" where
  "lastReported urls s =
     (0 < urlsCompleted s \<longrightarrow>
        (\<exists>i u. (AtEnd i, OnProgress u (urlsCompleted s) (length urls)) \<in> set (calls s)))"

text \<open>The only call of \<^verbatim>\<open>onError\<close> ever made is the one of \<^verbatim>\<open>startAudit\<close> after a cancellation.\<close>

definition onlySystemErrors :: "engine \<Rightarrow> bool" where
  "onlySystemErrors s =
     (\<forall>c \<in> set (calls s). isErrorCall c \<longrightarrow>
        c = (InStartAudit, OnError ''system'' ''Processing cancelled'') \<and> signalAborted s)"

section \<open>The end-to-end scenario\<close>

text \<open>The document the parser builds from the markup
  \<^verbatim>\<open><img src="/x.jpg"><a href="https://a.test">click here</a>\<close>: an \<^verbatim>\<open>html\<close> element with an
  empty \<^verbatim>\<open>head\<close> and a \<^verbatim>\<open>body\<close> holding the image and the link.\<close>

definition scenarioDocument :: node where
  "scenarioDocument =
     Element ''html'' []
       [Element ''head'' [] [],
        Element ''body'' []
          [Element ''img'' [(''src'', ''/x.jpg'')] [],
           Element ''a'' [(''href'', ''https://a.test'')] [Text ''click here'']]]"

text \<open>The configuration the application starts with.\<close>

definition defaultConfig :: config where
  "defaultConfig = \<lparr>maxConcurrent = 3, delayBetweenBatches = 1000\<rparr>"

text \<open>\<^verbatim>\<open>pause\<close>, \<^verbatim>\<open>resume\<close> and \<^verbatim>\<open>cancel\<close> of the engine set the flags of the engine and of the
  limiter together, so no call of \<^verbatim>\<open>processUrl\<close> ever waits in its own pause loop.\<close>

definition syncInv :: "engine \<Rightarrow> bool" where
  "syncInv s =
     (enginePaused s = isPaused (rateLimiter s) \<and>
      isCancelled (rateLimiter s) = aborted (rateLimiter s) \<and>
      (\<forall>i. workers s i \<noteq> Sleeping))"

section \<open>The status of the session (AuditContext)\<close>

text \<open>
  The run state the caller sees is kept by \<^verbatim>\<open>auditReducer\<close>, outside the engine;
  \<^verbatim>\<open>useAuditEngine\<close> dispatches an action for every callback and every command. This is the
  reducer's effect on \<^verbatim>\<open>currentSession.progress.status\<close>; \<open>None\<close> is a null session. The
  payload of \<^verbatim>\<open>UPDATE_PROGRESS\<close> is a partial progress state, which may or may not carry a
  status; the engine's progress reports carry none.
\<close>

datatype sessionStatus =
  StatusIdle | StatusRunning | StatusPaused | StatusCompleted | StatusCancelled

datatype appAction =
    START_AUDIT | UPDATE_PROGRESS "sessionStatus option" | ADD_RESULTS | ADD_ERROR
  | PAUSE_AUDIT | RESUME_AUDIT | CANCEL_AUDIT | COMPLETE_AUDIT

fun auditReducer :: "sessionStatus option \<Rightarrow> appAction \<Rightarrow> sessionStatus option" where
  "auditReducer st START_AUDIT = Some StatusRunning"
| "auditReducer None a = None"
| "auditReducer (Some st) (UPDATE_PROGRESS payload) =
     Some (case payload of None \<Rightarrow> st | Some st' \<Rightarrow> st')"
| "auditReducer (Some st) ADD_RESULTS = Some st"
| "auditReducer (Some st) ADD_ERROR = Some st"
| "auditReducer (Some st) PAUSE_AUDIT = Some StatusPaused"
| "auditReducer (Some st) RESUME_AUDIT = Some StatusRunning"
| "auditReducer (Some st) CANCEL_AUDIT = Some StatusCancelled"
| "auditReducer (Some st) COMPLETE_AUDIT = Some StatusCompleted"

text \<open>
  \<^verbatim>\<open>useAuditEngine\<close>. \<open>engineOf\<close> is the engine that \<^verbatim>\<open>start\<close> created and \<open>engineRef\<close> says
  whether \<^verbatim>\<open>engineRef.current\<close> still holds it: \<^verbatim>\<open>cancel\<close> and the \<^verbatim>\<open>onComplete\<close> callback set
  the reference to null, and \<^verbatim>\<open>pause\<close>, \<^verbatim>\<open>resume\<close> and \<^verbatim>\<open>cancel\<close> do nothing when it is null.
  The engine itself lives on in its pending timers and fetches, and its callbacks keep
  dispatching to the reducer. \<open>status\<close> is \<^verbatim>\<open>currentSession.progress.status\<close>.
\<close>

record session =
  engineOf :: engine
  engineRef :: bool
  status :: "sessionStatus option"

text \<open>The action each callback of the hook dispatches. The progress reports of the engine
  are \<^verbatim>\<open>{currentUrl, completed, total}\<close>, with no status.\<close>

definition dispatched :: "callback \<Rightarrow> appAction" where
  "dispatched c =
     (case c of
        OnProgress u n t \<Rightarrow> UPDATE_PROGRESS None
      | OnResults rs \<Rightarrow> ADD_RESULTS
      | OnError u m \<Rightarrow> ADD_ERROR
      | OnComplete \<Rightarrow> COMPLETE_AUDIT)"

text \<open>The callbacks of the hook, run on the calls the engine makes, in order.\<close>

fun deliver :: "callback list \<Rightarrow> session \<Rightarrow> session" where
  "deliver [] s = s"
| "deliver (c # cs) s =
     deliver cs (s\<lparr>status := auditReducer (status s) (dispatched c),
                   engineRef := (engineRef s \<and> c \<noteq> OnComplete)\<rparr>)"

text \<open>\<^verbatim>\<open>start(config)\<close> with \<open>urls\<close> the uploaded urls, up to its \<^verbatim>\<open>await\<close>.\<close>

definition start :: "config \<Rightarrow> string list \<Rightarrow> jsError + session" where
  "start cfg urls =
     (if length urls = 0 then Inl (JsError ''Error'' ''No URLs to audit'')
      else let e = startAudit cfg urls
           in Inr (deliver (map snd (calls e))
                     \<lparr>engineOf = e, engineRef = True,
                      status = auditReducer None START_AUDIT\<rparr>))"

text \<open>One step of a session: a command of the user through the hook, or a step of the
  engine, whose new calls are delivered to the hook's callbacks.\<close>

fun hookStep :: "config \<Rightarrow> string list \<Rightarrow> session \<Rightarrow> action \<Rightarrow> session" where
  "hookStep cfg urls s Pause =
     (if engineRef s
      then s\<lparr>engineOf := engineStep cfg urls (engineOf s) Pause,
             status := auditReducer (status s) PAUSE_AUDIT\<rparr>
      else s)"
| "hookStep cfg urls s Resume =
     (if engineRef s
      then s\<lparr>engineOf := engineStep cfg urls (engineOf s) Resume,
             status := auditReducer (status s) RESUME_AUDIT\<rparr>
      else s)"
| "hookStep cfg urls s Cancel =
     (if engineRef s
      then s\<lparr>engineOf := engineStep cfg urls (engineOf s) Cancel,
             status := auditReducer (status s) CANCEL_AUDIT,
             engineRef := False\<rparr>
      else s)"
| "hookStep cfg urls s a =
     (let e = engineStep cfg urls (engineOf s) a
      in deliver (map snd (drop (length (calls (engineOf s))) (calls e))) (s\<lparr>engineOf := e\<rparr>))"

definition sessionRun :: "config \<Rightarrow> string list \<Rightarrow> action list \<Rightarrow> jsError + session" where
  "sessionRun cfg urls as =
     (case start cfg urls of
        Inl e \<Rightarrow> Inl e
      | Inr s \<Rightarrow> Inr (foldl (hookStep cfg urls) s as))"

text \<open>What the caller sees of a session: the status, and the calls the engine has made.\<close>

definition progressStatus :: "jsError + session \<Rightarrow> sessionStatus option" where
  "progressStatus r = (case r of Inl e \<Rightarrow> None | Inr s \<Rightarrow> status s)"

definition callbacksMade :: "jsError + session \<Rightarrow> callback list" where
  "callbacksMade r = (case r of Inl e \<Rightarrow> [] | Inr s \<Rightarrow> map snd (calls (engineOf s)))"

text \<open>A bound on the work a run still has to do: the items not yet claimed, and the pending
  activities, a worker weighing more the more auditors it still has to run.\<close>

definition workerWeight :: "worker \<Rightarrow> nat" where
  "workerWeight w =
     (case w of
        Idle \<Rightarrow> 0
      | Sleeping \<Rightarrow> 11
      | Fetching j acc \<Rightarrow> (length auditors - j) + 4
      | Returned \<Rightarrow> 3
      | Thrown \<Rightarrow> 3)"

definition runningWeight :: "engine \<Rightarrow> nat" where
  "runningWeight s = sum_list (map (\<lambda>i. workerWeight (workers s i)) (running (rateLimiter s)))"

definition remaining :: "string list \<Rightarrow> engine \<Rightarrow> nat" where
  "remaining urls s =
     12 * (length urls - completed (rateLimiter s)) + 2 * delaying (rateLimiter s) +
     timers (rateLimiter s) + sleeping (rateLimiter s) + runningWeight s"

section \<open>The auditors: what \<^verbatim>\<open>audit\<close> returns\<close>

lemma hierarchyValid_Some:
  "hierarchyValid (map Some levels) =
     (\<not> (\<exists>i. Suc i < length levels \<and> levels ! i + 1 < levels ! Suc i))"
proof (induction levels rule: induct_list012)
  case 1
  show ?case by simp
next
  case (2 x)
  show ?case by simp
next
  case (3 previous current rest)
  have "(\<exists>i. Suc i < length (previous # current # rest) \<and>
             (previous # current # rest) ! i + 1 < (previous # current # rest) ! Suc i) =
        (previous + 1 < current \<or>
         (\<exists>i. Suc i < length (current # rest) \<and> (current # rest) ! i + 1 < (current # rest) ! Suc i))"
    (is "?l = ?r")
  proof
    assume ?l
    then obtain i where i: "Suc i < length (previous # current # rest)"
      "(previous # current # rest) ! i + 1 < (previous # current # rest) ! Suc i" by blast
    show ?r
    proof (cases i)
      case 0
      with i show ?thesis by simp
    next
      case (Suc j)
      with i have "Suc j < length (current # rest) \<and> (current # rest) ! j + 1 < (current # rest) ! Suc j"
        by simp
      then show ?thesis by blast
    qed
  next
    assume ?r
    then show ?l
    proof
      assume "previous + 1 < current"
      then have "Suc 0 < length (previous # current # rest) \<and>
          (previous # current # rest) ! 0 + 1 < (previous # current # rest) ! Suc 0" by simp
      then show ?l by blast
    next
      assume "\<exists>i. Suc i < length (current # rest) \<and> (current # rest) ! i + 1 < (current # rest) ! Suc i"
      then obtain j where "Suc j < length (current # rest)"
        "(current # rest) ! j + 1 < (current # rest) ! Suc j" by blast
      then have "Suc (Suc j) < length (previous # current # rest) \<and>
          (previous # current # rest) ! Suc j + 1 < (previous # current # rest) ! Suc (Suc j)" by simp
      then show ?l by blast
    qed
  qed
  with 3 show ?case by (simp add: gtPlusOne_def)
qed

lemma upper_headings:
  "toUpperCase ''h1'' = ''H1''" "toUpperCase ''h2'' = ''H2''" "toUpperCase ''h3'' = ''H3''"
  "toUpperCase ''h4'' = ''H4''" "toUpperCase ''h5'' = ''H5''" "toUpperCase ''h6'' = ''H6''"
  by code_simp+

lemma parseInt_headings:
  "parseInt (charAt ''H1'' (Suc 0)) = Some 1" "parseInt (charAt ''H2'' (Suc 0)) = Some 2"
  "parseInt (charAt ''H3'' (Suc 0)) = Some 3" "parseInt (charAt ''H4'' (Suc 0)) = Some 4"
  "parseInt (charAt ''H5'' (Suc 0)) = Some 5" "parseInt (charAt ''H6'' (Suc 0)) = Some 6"
  by code_simp+

lemma heading_level:
  assumes "matchesAny headingSelectors h"
  shows "\<exists>l. parseInt (charAt (tagName h) 1) = Some l \<and> 1 \<le> l \<and> l \<le> 6"
proof -
  from assms have "localName h \<in> {''h1'', ''h2'', ''h3'', ''h4'', ''h5'', ''h6''}"
    by (auto simp: matchesAny_def headingSelectors_def)
  then show ?thesis
    by (auto simp: tagName_def upper_headings parseInt_headings)
qed

lemma heading_levels:
  assumes "\<forall>h \<in> set hs. matchesAny headingSelectors h"
  shows "\<exists>levels. map (\<lambda>h. parseInt (charAt (tagName h) 1)) hs = map Some levels \<and>
           list_all (\<lambda>l. 1 \<le> l \<and> l \<le> 6) levels"
  using assms
proof (induction hs)
  case Nil
  show ?case by simp
next
  case (Cons h hs)
  then obtain levels where ls: "map (\<lambda>h. parseInt (charAt (tagName h) 1)) hs = map Some levels"
    "list_all (\<lambda>l. 1 \<le> l \<and> l \<le> 6) levels" by auto
  from Cons.prems heading_level[of h] obtain l where
    l: "parseInt (charAt (tagName h) 1) = Some l" "1 \<le> l" "l \<le> 6" by auto
  from ls l have "map (\<lambda>h. parseInt (charAt (tagName h) 1)) (h # hs) = map Some (l # levels) \<and>
      list_all (\<lambda>l. 1 \<le> l \<and> l \<le> 6) (l # levels)" by simp
  then show ?case by blast
qed

text \<open>
  Claim C9. For every document the heading levels, in document order, are numbers from 1
  to 6, and the heading auditor returns one \<^verbatim>\<open>Heading hierarchy issue\<close> whose details
  list the whole sequence exactly when some level is more than one above the level before
  it, and nothing otherwise. Headings \<open>h1, h2, h3\<close> give no finding, \<open>h1, h3\<close> give the one
  finding with details \<^verbatim>\<open>Improper heading sequence: 1, 3\<close>, and \<open>h2, h1, h2\<close> give none.
\<close>

theorem heading_hierarchy:
  "(\<exists>levels.
      snd (validateHeadingHierarchy (docQuerySelectorAll document headingSelectors)) = map Some levels \<and>
      list_all (\<lambda>l. 1 \<le> l \<and> l \<le> 6) levels \<and>
      audit HeadingAuditor url False (Fetched document) False =
        Inr (if \<exists>i. Suc i < length levels \<and> levels ! i + 1 < levels ! Suc i
             then [createAuditResult HEADING_HIERARCHY url
                     (''Improper heading sequence: '' @
                      join (map (\<lambda>l. numberToString (Some l)) levels) '', '') [] [] []]
             else [])) \<and>
   audit HeadingAuditor ''https://a.test'' False
     (Fetched (Element ''body'' [] [Element ''h1'' [] [], Element ''h2'' [] [], Element ''h3'' [] []]))
     False = Inr [] \<and>
   audit HeadingAuditor ''https://a.test'' False
     (Fetched (Element ''body'' [] [Element ''h1'' [] [], Element ''h3'' [] []])) False =
     Inr [\<lparr>fullUrl = ''https://a.test'', type = HEADING_HIERARCHY,
           details = ''Improper heading sequence: 1, 3'',
           linkText = [], targetUrl = [], imageFilename = []\<rparr>] \<and>
   audit HeadingAuditor ''https://a.test'' False
     (Fetched (Element ''body'' [] [Element ''h2'' [] [], Element ''h1'' [] [], Element ''h2'' [] []]))
     False = Inr []"
proof -
  let ?hs = "docQuerySelectorAll document headingSelectors"
  have "\<forall>h \<in> set ?hs. matchesAny headingSelectors h"
    by (simp add: docQuerySelectorAll_def)
  from heading_levels[OF this] obtain levels where
    ls: "map (\<lambda>h. parseInt (charAt (tagName h) 1)) ?hs = map Some levels"
    "list_all (\<lambda>l. 1 \<le> l \<and> l \<le> 6) levels" by blast
  have len: "length levels = length ?hs"
    using arg_cong[OF ls(1), of length] by simp
  have "audit HeadingAuditor url False (Fetched document) False =
       Inr (if \<exists>i. Suc i < length levels \<and> levels ! i + 1 < levels ! Suc i
            then [createAuditResult HEADING_HIERARCHY url
                    (''Improper heading sequence: '' @
                     join (map (\<lambda>l. numberToString (Some l)) levels) '', '') [] [] []]
            else [])"
  proof (cases "?hs = []")
    case True
    with len show ?thesis
      by (simp add: audit_def headingBody_def checkAbortSignal_def fetchAndParseHTML_def)
  next
    case False
    then show ?thesis
      using hierarchyValid_Some[of levels] ls(1)
      by (simp add: audit_def headingBody_def checkAbortSignal_def fetchAndParseHTML_def
          validateHeadingHierarchy_def comp_def Let_def)
  qed
  moreover have "snd (validateHeadingHierarchy ?hs) = map Some levels"
    using ls(1) by (simp add: validateHeadingHierarchy_def Let_def)
  ultimately have general: "\<exists>levels.
     snd (validateHeadingHierarchy (docQuerySelectorAll document headingSelectors)) = map Some levels \<and>
     list_all (\<lambda>l. 1 \<le> l \<and> l \<le> 6) levels \<and>
     audit HeadingAuditor url False (Fetched document) False =
       Inr (if \<exists>i. Suc i < length levels \<and> levels ! i + 1 < levels ! Suc i
            then [createAuditResult HEADING_HIERARCHY url
                    (''Improper heading sequence: '' @
                     join (map (\<lambda>l. numberToString (Some l)) levels) '', '') [] [] []]
            else [])"
    using ls(2) by blast
  have e1: "audit HeadingAuditor ''https://a.test'' False
     (Fetched (Element ''body'' [] [Element ''h1'' [] [], Element ''h2'' [] [], Element ''h3'' [] []]))
     False = Inr []"
    by code_simp
  have e2: "audit HeadingAuditor ''https://a.test'' False
     (Fetched (Element ''body'' [] [Element ''h1'' [] [], Element ''h3'' [] []])) False =
     Inr [\<lparr>fullUrl = ''https://a.test'', type = HEADING_HIERARCHY,
           details = ''Improper heading sequence: 1, 3'',
           linkText = [], targetUrl = [], imageFilename = []\<rparr>]"
    by code_simp
  have e3: "audit HeadingAuditor ''https://a.test'' False
     (Fetched (Element ''body'' [] [Element ''h2'' [] [], Element ''h1'' [] [], Element ''h2'' [] []]))
     False = Inr []"
    by code_simp
  from general e1 e2 e3 show ?thesis by blast
qed

lemma auditBody_aborted:
  "auditBody a url True r aborted1 = Inl (JsError ''Error'' ''Audit was cancelled'')"
  by (cases a)
     (simp_all add: imageBody_def linkBody_def buttonBody_def headingBody_def tableBody_def
        documentBody_def checkAbortSignal_def)

lemma auditBody_AbortError:
  "auditBody a url False AbortError aborted1 = Inl (JsError ''Error'' ''Request was cancelled'')"
  by (cases a)
     (simp_all add: imageBody_def linkBody_def buttonBody_def headingBody_def tableBody_def
        documentBody_def checkAbortSignal_def fetchAndParseHTML_def)

lemma auditBody_Failed:
  "auditBody a url False (Failed msg) aborted1 =
     Inl (JsError ''Error'' (''Failed to fetch '' @ url @ '': '' @ msg))"
  by (cases a)
     (simp_all add: imageBody_def linkBody_def buttonBody_def headingBody_def tableBody_def
        documentBody_def checkAbortSignal_def fetchAndParseHTML_def)

lemma audit_caught: "auditBody a url aborted0 r aborted1 = Inl e \<Longrightarrow> audit a url aborted0 r aborted1 = Inr []"
  by (simp add: audit_def handleError_def)

lemma audit_no_fetch:
  "audit a url aborted0 AbortError aborted1 = Inr []"
  "audit a url aborted0 (Failed msg) aborted1 = Inr []"
  using auditBody_aborted[of a url] auditBody_AbortError[of a url] auditBody_Failed[of a url]
  by (cases aborted0; simp add: audit_caught)+

text \<open>
  Claim C10. For each of the six auditors, every url, every state of the signal and every
  outcome of the fetch, \<^verbatim>\<open>audit\<close> returns a result list and never an error: its result is
  the body's result, or the empty list when the body threw. It returns the empty list when
  the signal has fired before the call, when the fetch is aborted and when the fetch or the
  parser fails (the body then throws \<^verbatim>\<open>Failed to fetch <url>: <message>\<close>); an abort seen by
  \<^verbatim>\<open>checkAbortSignal\<close> inside the loop over the images of a fetched page throws in the body
  and gives the empty list as well.
\<close>

theorem audit_never_rejects:
  "audit a url aborted0 r aborted1 =
     Inr (case auditBody a url aborted0 r aborted1 of Inl e \<Rightarrow> [] | Inr results \<Rightarrow> results) \<and>
   audit a url True r aborted1 = Inr [] \<and>
   audit a url aborted0 AbortError aborted1 = Inr [] \<and>
   audit a url aborted0 (Failed msg) aborted1 = Inr [] \<and>
   auditBody a url False (Failed msg) aborted1 =
     Inl (JsError ''Error'' (''Failed to fetch '' @ url @ '': '' @ msg)) \<and>
   auditBody ImageAuditor ''https://a.test'' False
     (Fetched (Element ''body'' [] [Element ''img'' [(''src'', ''/x.jpg'')] []])) True =
     Inl (JsError ''Error'' ''Audit was cancelled'') \<and>
   audit ImageAuditor ''https://a.test'' False
     (Fetched (Element ''body'' [] [Element ''img'' [(''src'', ''/x.jpg'')] []])) True = Inr []"
proof -
  have 1: "audit a url aborted0 r aborted1 =
     Inr (case auditBody a url aborted0 r aborted1 of Inl e \<Rightarrow> [] | Inr results \<Rightarrow> results)"
    by (simp add: audit_def handleError_def split: sum.split)
  have 5: "auditBody ImageAuditor ''https://a.test'' False
     (Fetched (Element ''body'' [] [Element ''img'' [(''src'', ''/x.jpg'')] []])) True =
     Inl (JsError ''Error'' ''Audit was cancelled'')"
    by code_simp
  have 6: "audit a url True r aborted1 = Inr []"
    using auditBody_aborted[of a url r aborted1] by (rule audit_caught)
  have 9: "audit ImageAuditor ''https://a.test'' False
     (Fetched (Element ''body'' [] [Element ''img'' [(''src'', ''/x.jpg'')] []])) True = Inr []"
    using 5 by (rule audit_caught)
  from 1 5 6 9 audit_no_fetch(1)[of a url aborted0 aborted1] audit_no_fetch(2)[of a url aborted0 msg aborted1]
    auditBody_Failed[of a url msg aborted1]
  show ?thesis by blast
qed

section \<open>The rate limiter: invariants of a run\<close>

lemma afterPause_fields:
  "completed (afterPause cfg items s) = (if canClaim cfg items s then Suc (completed s) else completed s)"
  "claimed (afterPause cfg items s) = (if canClaim cfg items s then claimed s @ [completed s] else claimed s)"
  "running (afterPause cfg items s) = (if canClaim cfg items s then running s @ [completed s] else running s)"
  "activeRequests (afterPause cfg items s) = (if canClaim cfg items s then activeRequests s + 1 else activeRequests s)"
  "promise (afterPause cfg items s) = (if length items \<le> completed s \<and> promise s = Pending then Resolved else promise s)"
  "timers (afterPause cfg items s) = timers s"
  "sleeping (afterPause cfg items s) = sleeping s"
  "delaying (afterPause cfg items s) = delaying s"
  "isPaused (afterPause cfg items s) = isPaused s"
  "isCancelled (afterPause cfg items s) = isCancelled s"
  "aborted (afterPause cfg items s) = aborted s"
  by (simp_all add: afterPause_def canClaim_def resolve_def)

lemma processNext_fields:
  "completed (processNext cfg items s) =
     (if isCancelled s \<or> aborted s \<or> isPaused s then completed s else completed (afterPause cfg items s))"
  "claimed (processNext cfg items s) =
     (if isCancelled s \<or> aborted s \<or> isPaused s then claimed s else claimed (afterPause cfg items s))"
  "running (processNext cfg items s) =
     (if isCancelled s \<or> aborted s \<or> isPaused s then running s else running (afterPause cfg items s))"
  "activeRequests (processNext cfg items s) =
     (if isCancelled s \<or> aborted s \<or> isPaused s then activeRequests s else activeRequests (afterPause cfg items s))"
  "promise (processNext cfg items s) =
     (if isCancelled s \<or> aborted s
      then (if promise s = Pending then Rejected (JsError ''Error'' ''Processing cancelled'') else promise s)
      else if isPaused s then promise s else promise (afterPause cfg items s))"
  "timers (processNext cfg items s) = timers s"
  "sleeping (processNext cfg items s) =
     (if \<not> isCancelled s \<and> \<not> aborted s \<and> isPaused s then Suc (sleeping s) else sleeping s)"
  "delaying (processNext cfg items s) = delaying s"
  "isPaused (processNext cfg items s) = isPaused s"
  "isCancelled (processNext cfg items s) = isCancelled s"
  "aborted (processNext cfg items s) = aborted s"
  by (simp_all add: processNext_def reject_def afterPause_fields)


lemma pauseTick_eq:
  "pauseTick cfg items s =
     (if sleeping s = 0 \<or> (isPaused s \<and> \<not> isCancelled s \<and> \<not> aborted s) then s
      else afterPause cfg items (s\<lparr>sleeping := sleeping s - 1\<rparr>))"
  by (simp add: pauseTick_def)

lemma timerFires_eq:
  "timerFires cfg items s =
     (if timers s = 0 then s else processNext cfg items (s\<lparr>timers := timers s - 1\<rparr>))"
  by (simp add: timerFires_def)

lemma canClaim_upd [simp]:
  "canClaim cfg items (s\<lparr>sleeping := x\<rparr>) = canClaim cfg items s"
  "canClaim cfg items (s\<lparr>timers := y\<rparr>) = canClaim cfg items s"
  by (simp_all add: canClaim_def)

lemma finallyBlock_fields:
  "completed (finallyBlock cfg items i s) = completed s"
  "claimed (finallyBlock cfg items i s) = claimed s"
  "running (finallyBlock cfg items i s) = (if i \<in> set (running s) then remove1 i (running s) else running s)"
  "activeRequests (finallyBlock cfg items i s) = (if i \<in> set (running s) then activeRequests s - 1 else activeRequests s)"
  "promise (finallyBlock cfg items i s) = promise s"
  "timers (finallyBlock cfg items i s) + delaying (finallyBlock cfg items i s) =
     (if i \<in> set (running s) then Suc (timers s + delaying s) else timers s + delaying s)"
  "sleeping (finallyBlock cfg items i s) = sleeping s"
  "isPaused (finallyBlock cfg items i s) = isPaused s"
  "isCancelled (finallyBlock cfg items i s) = isCancelled s"
  "aborted (finallyBlock cfg items i s) = aborted s"
  by (simp_all add: finallyBlock_def Let_def)

lemma tokens_afterPause:
  "tokens (afterPause cfg items s) = (if canClaim cfg items s then Suc (tokens s) else tokens s)"
  by (simp add: tokens_def afterPause_fields)

lemma tokens_processNext:
  "tokens (processNext cfg items s) =
     (if isCancelled s \<or> aborted s then tokens s
      else if isPaused s \<or> canClaim cfg items s then Suc (tokens s) else tokens s)"
  by (simp add: tokens_def processNext_fields afterPause_fields)

lemma tokens_less_timer: "timers s \<noteq> 0 \<Longrightarrow> Suc (tokens (s\<lparr>timers := timers s - 1\<rparr>)) = tokens s"
  by (simp add: tokens_def)

lemma tokens_less_sleeping: "sleeping s \<noteq> 0 \<Longrightarrow> Suc (tokens (s\<lparr>sleeping := sleeping s - 1\<rparr>)) = tokens s"
  by (simp add: tokens_def)

lemma tokens_timerFires:
  "tokens (timerFires cfg items s) =
     (if timers s = 0 \<or> (\<not> isCancelled s \<and> \<not> aborted s \<and> (isPaused s \<or> canClaim cfg items s))
      then tokens s else tokens s - 1)"
proof (cases "timers s = 0")
  case True
  then show ?thesis by (simp add: timerFires_eq)
next
  case False
  from tokens_less_timer[OF False] show ?thesis
    by (simp add: timerFires_eq tokens_processNext False) arith
qed

lemma tokens_pauseTick:
  "tokens (pauseTick cfg items s) =
     (if sleeping s = 0 \<or> (isPaused s \<and> \<not> isCancelled s \<and> \<not> aborted s) \<or> canClaim cfg items s
      then tokens s else tokens s - 1)"
proof (cases "sleeping s = 0")
  case True
  then show ?thesis by (simp add: pauseTick_eq)
next
  case False
  from tokens_less_sleeping[OF False] show ?thesis
    by (simp add: pauseTick_eq tokens_afterPause False) arith
qed

lemma tokens_finallyBlock: "tokens (finallyBlock cfg items i s) = tokens s"
proof -
  have "tokens (finallyBlock cfg items i s) =
      (timers (finallyBlock cfg items i s) + delaying (finallyBlock cfg items i s)) +
      sleeping (finallyBlock cfg items i s) + length (running (finallyBlock cfg items i s))"
    by (simp add: tokens_def)
  also have "\<dots> = tokens s"
    unfolding finallyBlock_fields
    by (auto simp: tokens_def length_remove1 dest: length_pos_if_in_set)
  finally show ?thesis .
qed

lemma tokens_delayElapsed: "tokens (delayElapsed s) = tokens s"
  by (simp add: delayElapsed_def tokens_def)

lemma tokens_flags:
  "tokens (pause s) = tokens s" "tokens (resume s) = tokens s"
  "tokens (cancel s) = tokens s" "tokens (abort s) = tokens s"
  by (simp_all add: pause_def resume_def cancel_def abort_def tokens_def)

lemma tokens_le_step: "tokens (step cfg items s e) \<le> tokens s"
  by (cases e)
     (simp_all add: tokens_timerFires tokens_pauseTick tokens_finallyBlock tokens_delayElapsed tokens_flags)


lemmas step_fields = timerFires_eq pauseTick_eq processNext_fields afterPause_fields
  finallyBlock_fields delayElapsed_def pause_def resume_def cancel_def abort_def

lemma active_step:
  "activeRequests (step cfg items s e) = int (length (running (step cfg items s e)))"
  if "activeRequests s = int (length (running s))"
proof (cases e)
  case (Settles i)
  have "i \<in> set (running s) \<Longrightarrow> int (length (running s)) - 1 = int (length (running s) - 1)"
    by (cases "running s") auto
  with Settles that show ?thesis
    by (simp add: step_fields length_remove1)
qed (use that in \<open>simp_all add: step_fields\<close>)

lemma completed_mono: "completed s \<le> completed (step cfg items s e)"
  by (cases e) (simp_all add: step_fields)

lemma completed_le_step:
  "completed s \<le> length items \<Longrightarrow> completed (step cfg items s e) \<le> length items"
  by (cases e) (simp_all add: step_fields canClaim_def)

lemma claimed_step:
  "claimed s = [0..<completed s] \<Longrightarrow> claimed (step cfg items s e) = [0..<completed (step cfg items s e)]"
  by (cases e) (simp_all add: step_fields)

lemma running_step:
  "distinct (running s) \<and> set (running s) \<subseteq> {0..<completed s} \<Longrightarrow>
   distinct (running (step cfg items s e)) \<and>
   set (running (step cfg items s e)) \<subseteq> {0..<completed (step cfg items s e)}"
  by (cases e) (auto simp: step_fields dest: notin_set_remove1)

lemma resolved_step:
  "completed s \<le> length items \<Longrightarrow> (promise s = Resolved \<longrightarrow> completed s = length items) \<Longrightarrow>
   promise (step cfg items s e) = Resolved \<longrightarrow> completed (step cfg items s e) = length items"
  by (cases e) (auto simp: step_fields canClaim_def)

lemma rejected_step:
  "(promise s = Rejected x \<longrightarrow> isCancelled s \<or> aborted s) \<Longrightarrow>
   promise (step cfg items s e) = Rejected x \<longrightarrow>
     isCancelled (step cfg items s e) \<or> aborted (step cfg items s e)"
  by (cases e) (auto simp: step_fields)

lemma rejected_error_step:
  "(promise s = Rejected x \<longrightarrow> x = JsError ''Error'' ''Processing cancelled'') \<Longrightarrow>
   promise (step cfg items s e) = Rejected x \<longrightarrow> x = JsError ''Error'' ''Processing cancelled''"
  by (cases e) (auto simp: step_fields)

lemma flags_sticky:
  "isCancelled s \<Longrightarrow> isCancelled (step cfg items s e)"
  "aborted s \<Longrightarrow> aborted (step cfg items s e)"
  by (cases e; simp add: step_fields)+

lemma initialBatch_le: "0 < initialBatch cfg items \<Longrightarrow> int (initialBatch cfg items) \<le> maxConcurrent cfg"
  by (auto simp: initialBatch_def)

lemma initialBatch_le_length: "initialBatch cfg items \<le> length items"
  by (auto simp: initialBatch_def)

lemma tokens_keep:
  assumes act: "activeRequests s = int (length (running s))"
    and le: "tokens s \<le> initialBatch cfg items"
    and nc: "\<not> isCancelled (step cfg items s e)" "\<not> aborted (step cfg items s e)"
    and lt: "completed (step cfg items s e) < length items"
  shows "tokens (step cfg items s e) = tokens s"
proof -
  have lt0: "completed s < length items"
    using lt completed_mono[of s cfg items e] by simp
  have nc0: "\<not> isCancelled s" "\<not> aborted s"
    using nc flags_sticky[of s cfg items e] by auto
  have claim: "canClaim cfg items s" if "timers s \<noteq> 0 \<or> sleeping s \<noteq> 0"
  proof -
    from that have "length (running s) < tokens s" by (auto simp: tokens_def)
    with le have "length (running s) < initialBatch cfg items" by simp
    with initialBatch_le[of cfg items] have "int (length (running s)) < maxConcurrent cfg" by simp
    with act lt0 show ?thesis by (simp add: canClaim_def)
  qed
  show ?thesis
  proof (cases e)
    case TimerFires
    with claim nc0 show ?thesis by (auto simp: tokens_timerFires)
  next
    case PauseTick
    with claim nc0 show ?thesis by (auto simp: tokens_pauseTick)
  qed (simp_all add: tokens_finallyBlock tokens_delayElapsed tokens_flags)
qed


lemma init_loop:
  "j \<le> initialBatch cfg items \<Longrightarrow>
   ((processNext cfg items) ^^ j) (newRateLimiter\<lparr>isCancelled := False\<rparr>) =
     newRateLimiter\<lparr>claimed := [0..<j], running := [0..<j], completed := j, activeRequests := int j\<rparr>"
proof (induction j)
  case 0
  then show ?case by (simp add: newRateLimiter_def)
next
  case (Suc j)
  then have "j < length items" "int j < maxConcurrent cfg"
    using initialBatch_le[of cfg items] initialBatch_le_length[of cfg items] by auto
  with Suc show ?case
    by (simp add: processNext_def afterPause_def newRateLimiter_def)
qed

lemma processItems_new:
  "processItems cfg items newRateLimiter =
     \<lparr>activeRequests = int (initialBatch cfg items), isPaused = False, isCancelled = False,
      aborted = False, completed = initialBatch cfg items, promise = Pending, timers = 0,
      sleeping = 0, running = [0..<initialBatch cfg items], delaying = 0,
      claimed = [0..<initialBatch cfg items]\<rparr>"
proof -
  have "processItems cfg items newRateLimiter =
      newRateLimiter\<lparr>claimed := [0..<initialBatch cfg items], running := [0..<initialBatch cfg items],
        completed := initialBatch cfg items, activeRequests := int (initialBatch cfg items)\<rparr>"
    by (simp add: processItems_def init_loop)
  then show ?thesis by (simp add: newRateLimiter_def)
qed

lemma run_snoc: "run cfg items (es @ [e]) = step cfg items (run cfg items es) e"
  by (simp add: run_def)

lemma run_Nil:
  "run cfg items [] =
     \<lparr>activeRequests = int (initialBatch cfg items), isPaused = False, isCancelled = False,
      aborted = False, completed = initialBatch cfg items, promise = Pending, timers = 0,
      sleeping = 0, running = [0..<initialBatch cfg items], delaying = 0,
      claimed = [0..<initialBatch cfg items]\<rparr>"
  by (simp add: run_def processItems_new)

lemma run_active: "activeRequests (run cfg items es) = int (length (running (run cfg items es)))"
proof (induction es rule: rev_induct)
  case Nil
  show ?case by (simp add: run_Nil)
next
  case (snoc e es)
  then show ?case by (simp add: run_snoc active_step)
qed

lemma run_tokens_le: "tokens (run cfg items es) \<le> initialBatch cfg items"
proof (induction es rule: rev_induct)
  case Nil
  show ?case by (simp add: run_Nil tokens_def)
next
  case (snoc e es)
  with tokens_le_step[of cfg items "run cfg items es" e] show ?case by (simp add: run_snoc)
qed

lemma run_completed_le: "completed (run cfg items es) \<le> length items"
proof (induction es rule: rev_induct)
  case Nil
  show ?case by (simp add: run_Nil initialBatch_le_length)
next
  case (snoc e es)
  then show ?case by (simp add: run_snoc completed_le_step)
qed

lemma run_claimed: "claimed (run cfg items es) = [0..<completed (run cfg items es)]"
proof (induction es rule: rev_induct)
  case Nil
  show ?case by (simp add: run_Nil)
next
  case (snoc e es)
  then show ?case by (simp add: run_snoc claimed_step)
qed

lemma run_running:
  "distinct (running (run cfg items es)) \<and>
   set (running (run cfg items es)) \<subseteq> {0..<completed (run cfg items es)}"
proof (induction es rule: rev_induct)
  case Nil
  show ?case by (simp add: run_Nil)
next
  case (snoc e es)
  then show ?case using running_step[of "run cfg items es" cfg items e] by (simp add: run_snoc)
qed

lemma run_resolved:
  "promise (run cfg items es) = Resolved \<longrightarrow> completed (run cfg items es) = length items"
proof (induction es rule: rev_induct)
  case Nil
  show ?case by (simp add: run_Nil)
next
  case (snoc e es)
  then show ?case
    using resolved_step[of "run cfg items es" items cfg e] run_completed_le[of cfg items es]
    by (simp add: run_snoc)
qed

lemma run_rejected:
  "promise (run cfg items es) = Rejected x \<longrightarrow>
     isCancelled (run cfg items es) \<or> aborted (run cfg items es)"
proof (induction es rule: rev_induct)
  case Nil
  show ?case by (simp add: run_Nil)
next
  case (snoc e es)
  then show ?case
    using rejected_step[of "run cfg items es" x cfg items e] by (simp add: run_snoc)
qed

lemma run_rejected_error:
  "promise (run cfg items es) = Rejected x \<longrightarrow> x = JsError ''Error'' ''Processing cancelled''"
proof (induction es rule: rev_induct)
  case Nil
  show ?case by (simp add: run_Nil)
next
  case (snoc e es)
  then show ?case
    using rejected_error_step[of "run cfg items es" x cfg items e] by (simp add: run_snoc)
qed

lemma run_flags:
  "isCancelled (run cfg items es) = (CallCancel \<in> set es)"
  "aborted (run cfg items es) = (SignalAbort \<in> set es)"
proof (induction es rule: rev_induct)
  case Nil
  {
    case 1 show ?case by (simp add: run_Nil)
  next
    case 2 show ?case by (simp add: run_Nil)
  }
next
  case (snoc e es)
  {
    case 1 with snoc(1) show ?case by (cases e) (auto simp: run_snoc step_fields)
  next
    case 2 with snoc(2) show ?case by (cases e) (auto simp: run_snoc step_fields)
  }
qed

lemma run_tokens_eq:
  "\<not> isCancelled (run cfg items es) \<Longrightarrow> \<not> aborted (run cfg items es) \<Longrightarrow>
   completed (run cfg items es) < length items \<Longrightarrow>
   tokens (run cfg items es) = initialBatch cfg items"
proof (induction es rule: rev_induct)
  case Nil
  show ?case by (simp add: run_Nil tokens_def)
next
  case (snoc e es)
  let ?s = "run cfg items es"
  from snoc.prems have nc: "\<not> isCancelled (step cfg items ?s e)" "\<not> aborted (step cfg items ?s e)"
    and lt: "completed (step cfg items ?s e) < length items"
    by (simp_all add: run_snoc)
  have nc0: "\<not> isCancelled ?s" "\<not> aborted ?s"
    using nc flags_sticky[of ?s cfg items e] by auto
  have lt0: "completed ?s < length items"
    using lt completed_mono[of ?s cfg items e] by simp
  have "tokens (step cfg items ?s e) = tokens ?s"
    by (rule tokens_keep[OF run_active run_tokens_le nc lt])
  with snoc.IH[OF nc0 lt0] show ?case by (simp add: run_snoc)
qed

lemma promise_step_pending:
  "promise (step cfg items s e) = Pending \<Longrightarrow> promise s = Pending"
  by (cases e) (auto simp: step_fields split: if_splits)

lemma tokens_keep_pending:
  assumes act: "activeRequests s = int (length (running s))"
    and le: "tokens s \<le> initialBatch cfg items"
    and nc: "\<not> isCancelled (step cfg items s e)" "\<not> aborted (step cfg items s e)"
    and pe: "promise (step cfg items s e) = Pending"
  shows "tokens (step cfg items s e) = tokens s"
proof -
  have nc0: "\<not> isCancelled s" "\<not> aborted s"
    using nc flags_sticky[of s cfg items e] by auto
  have p0: "promise s = Pending" using pe by (rule promise_step_pending)
  have active: "activeRequests s < maxConcurrent cfg" if "timers s \<noteq> 0 \<or> sleeping s \<noteq> 0"
  proof -
    from that have "length (running s) < tokens s" by (auto simp: tokens_def)
    with le have "length (running s) < initialBatch cfg items" by simp
    with initialBatch_le[of cfg items] have "int (length (running s)) < maxConcurrent cfg" by simp
    with act show ?thesis by simp
  qed
  show ?thesis
  proof (cases e)
    case TimerFires
    show ?thesis
    proof (cases "timers s = 0")
      case True
      with TimerFires show ?thesis by (simp add: tokens_timerFires)
    next
      case False
      with TimerFires pe p0 nc0 have "isPaused s \<or> completed s < length items"
        by (auto simp: step_fields split: if_splits)
      with False active TimerFires nc0 show ?thesis
        by (auto simp: tokens_timerFires canClaim_def)
    qed
  next
    case PauseTick
    show ?thesis
    proof (cases "sleeping s = 0")
      case True
      with PauseTick show ?thesis by (simp add: tokens_pauseTick)
    next
      case False
      with PauseTick pe p0 nc0 have "isPaused s \<or> completed s < length items"
        by (auto simp: step_fields split: if_splits)
      with False active PauseTick nc0 show ?thesis
        by (auto simp: tokens_pauseTick canClaim_def)
    qed
  qed (simp_all add: tokens_finallyBlock tokens_delayElapsed tokens_flags)
qed

lemma run_tokens_pending:
  "\<not> isCancelled (run cfg items es) \<Longrightarrow> \<not> aborted (run cfg items es) \<Longrightarrow>
   promise (run cfg items es) = Pending \<Longrightarrow>
   tokens (run cfg items es) = initialBatch cfg items"
proof (induction es rule: rev_induct)
  case Nil
  show ?case by (simp add: run_Nil tokens_def)
next
  case (snoc e es)
  let ?s = "run cfg items es"
  from snoc.prems have nc: "\<not> isCancelled (step cfg items ?s e)" "\<not> aborted (step cfg items ?s e)"
    and pe: "promise (step cfg items ?s e) = Pending"
    by (simp_all add: run_snoc)
  have nc0: "\<not> isCancelled ?s" "\<not> aborted ?s"
    using nc flags_sticky[of ?s cfg items e] by auto
  have p0: "promise ?s = Pending" using pe by (rule promise_step_pending)
  have "tokens (step cfg items ?s e) = tokens ?s"
    by (rule tokens_keep_pending[OF run_active run_tokens_le nc pe])
  with snoc.IH[OF nc0 p0] show ?case by (simp add: run_snoc)
qed


lemma fire_effect:
  assumes "\<not> isCancelled s" "\<not> aborted s" "\<not> isPaused s" "promise s = Pending"
    and act: "activeRequests s = int (length (running s))"
    and le: "tokens s \<le> initialBatch cfg items"
  shows "timers s \<noteq> 0 \<Longrightarrow> advanced cfg items s (timerFires cfg items s)"
    and "sleeping s \<noteq> 0 \<Longrightarrow> advanced cfg items s (pauseTick cfg items s)"
proof -
  have active: "activeRequests s < maxConcurrent cfg" if "timers s \<noteq> 0 \<or> sleeping s \<noteq> 0"
  proof -
    from that have "length (running s) < tokens s" by (auto simp: tokens_def)
    with le have "length (running s) < initialBatch cfg items" by simp
    with initialBatch_le[of cfg items] have "int (length (running s)) < maxConcurrent cfg" by simp
    with act show ?thesis by simp
  qed
  show "timers s \<noteq> 0 \<Longrightarrow> advanced cfg items s (timerFires cfg items s)"
    using assms(1-4) active by (simp add: advanced_def step_fields canClaim_def)
  show "sleeping s \<noteq> 0 \<Longrightarrow> advanced cfg items s (pauseTick cfg items s)"
    using assms(1-4) active by (simp add: advanced_def step_fields canClaim_def)
qed

lemma advance_timer:
  assumes nc: "CallCancel \<notin> set es" "SignalAbort \<notin> set es"
    and np: "\<not> isPaused (run cfg items es)" and pe: "promise (run cfg items es) = Pending"
    and t: "timers (run cfg items es) \<noteq> 0"
  shows "advanced cfg items (run cfg items es) (run cfg items (es @ [TimerFires]))"
  using fire_effect(1)[OF _ _ np pe run_active run_tokens_le t] nc
  by (simp add: run_snoc run_flags)

lemma advance_sleeper:
  assumes nc: "CallCancel \<notin> set es" "SignalAbort \<notin> set es"
    and np: "\<not> isPaused (run cfg items es)" and pe: "promise (run cfg items es) = Pending"
    and t: "sleeping (run cfg items es) \<noteq> 0"
  shows "advanced cfg items (run cfg items es) (run cfg items (es @ [PauseTick]))"
  using fire_effect(2)[OF _ _ np pe run_active run_tokens_le t] nc
  by (simp add: run_snoc run_flags)

lemma advanced_cong:
  "completed s0 = completed s \<Longrightarrow> advanced cfg items s0 s' \<Longrightarrow> advanced cfg items s s'"
  by (simp add: advanced_def)

lemma advance_delay:
  assumes nc: "CallCancel \<notin> set es" "SignalAbort \<notin> set es"
    and np: "\<not> isPaused (run cfg items es)" and pe: "promise (run cfg items es) = Pending"
    and t: "delaying (run cfg items es) \<noteq> 0"
  shows "advanced cfg items (run cfg items es) (run cfg items (es @ [DelayElapsed, TimerFires]))"
proof -
  let ?es = "es @ [DelayElapsed]"
  have f: "\<not> isPaused (run cfg items ?es)" "promise (run cfg items ?es) = Pending"
    "timers (run cfg items ?es) \<noteq> 0" "completed (run cfg items ?es) = completed (run cfg items es)"
    using np pe t by (simp_all add: run_snoc delayElapsed_def)
  have "advanced cfg items (run cfg items ?es) (run cfg items (?es @ [TimerFires]))"
    using nc f(1-3) by (intro advance_timer) simp_all
  with f(4) show ?thesis by (simp add: advanced_def)
qed

lemma advance_worker:
  assumes nc: "CallCancel \<notin> set es" "SignalAbort \<notin> set es"
    and np: "\<not> isPaused (run cfg items es)" and pe: "promise (run cfg items es) = Pending"
    and t: "running (run cfg items es) \<noteq> []"
  shows "\<exists>es'. CallCancel \<notin> set es' \<and> SignalAbort \<notin> set es' \<and>
           advanced cfg items (run cfg items es) (run cfg items (es @ es'))"
proof -
  let ?i = "hd (running (run cfg items es))"
  let ?es = "es @ [Settles ?i]"
  have mem: "?i \<in> set (running (run cfg items es))" using t by simp
  have f: "\<not> isPaused (run cfg items ?es)" "promise (run cfg items ?es) = Pending"
    "completed (run cfg items ?es) = completed (run cfg items es)"
    using np pe by (simp_all add: run_snoc finallyBlock_fields)
  have "timers (run cfg items ?es) + delaying (run cfg items ?es) \<noteq> 0"
    using mem by (simp add: run_snoc finallyBlock_fields(6))
  then consider "timers (run cfg items ?es) \<noteq> 0" | "delaying (run cfg items ?es) \<noteq> 0" by auto
  then show ?thesis
  proof cases
    case 1
    have "advanced cfg items (run cfg items ?es) (run cfg items (?es @ [TimerFires]))"
      using nc f(1,2) 1 by (intro advance_timer) simp_all
    with f(3) have "advanced cfg items (run cfg items es) (run cfg items (es @ [Settles ?i, TimerFires]))"
      by (simp add: advanced_def)
    then show ?thesis by (intro exI[of _ "[Settles ?i, TimerFires]"]) simp
  next
    case 2
    have "advanced cfg items (run cfg items ?es) (run cfg items (?es @ [DelayElapsed, TimerFires]))"
      using nc f(1,2) 2 by (intro advance_delay) simp_all
    with f(3) have "advanced cfg items (run cfg items es)
        (run cfg items (es @ [Settles ?i, DelayElapsed, TimerFires]))"
      by (simp add: advanced_def)
    then show ?thesis by (intro exI[of _ "[Settles ?i, DelayElapsed, TimerFires]"]) simp
  qed
qed

lemma advance:
  assumes nc: "CallCancel \<notin> set es" "SignalAbort \<notin> set es"
    and pe: "promise (run cfg items es) = Pending"
    and k: "0 < initialBatch cfg items"
  shows "\<exists>es'. CallCancel \<notin> set es' \<and> SignalAbort \<notin> set es' \<and>
           advanced cfg items (run cfg items es) (run cfg items (es @ es'))"
proof -
  let ?es = "es @ [CallResume]"
  have nc': "CallCancel \<notin> set ?es" "SignalAbort \<notin> set ?es" using nc by simp_all
  have f: "\<not> isPaused (run cfg items ?es)" "promise (run cfg items ?es) = Pending"
    "completed (run cfg items ?es) = completed (run cfg items es)"
    using pe by (simp_all add: run_snoc resume_def)
  have "tokens (run cfg items ?es) = initialBatch cfg items"
    using nc' f(2) by (intro run_tokens_pending) (simp_all add: run_flags)
  with k have "timers (run cfg items ?es) \<noteq> 0 \<or> sleeping (run cfg items ?es) \<noteq> 0 \<or>
      delaying (run cfg items ?es) \<noteq> 0 \<or> running (run cfg items ?es) \<noteq> []"
    by (auto simp: tokens_def)
  then have "\<exists>es'. CallCancel \<notin> set es' \<and> SignalAbort \<notin> set es' \<and>
           advanced cfg items (run cfg items ?es) (run cfg items (?es @ es'))"
  proof (elim disjE)
    assume "timers (run cfg items ?es) \<noteq> 0"
    from advance_timer[OF nc' f(1,2) this] show ?thesis
      by (intro exI[of _ "[TimerFires]"]) simp
  next
    assume "sleeping (run cfg items ?es) \<noteq> 0"
    from advance_sleeper[OF nc' f(1,2) this] show ?thesis
      by (intro exI[of _ "[PauseTick]"]) simp
  next
    assume "delaying (run cfg items ?es) \<noteq> 0"
    from advance_delay[OF nc' f(1,2) this] show ?thesis
      by (intro exI[of _ "[DelayElapsed, TimerFires]"]) simp
  next
    assume "running (run cfg items ?es) \<noteq> []"
    from advance_worker[OF nc' f(1,2) this] show ?thesis .
  qed
  then obtain es' where es': "CallCancel \<notin> set es'" "SignalAbort \<notin> set es'"
    "advanced cfg items (run cfg items ?es) (run cfg items (?es @ es'))" by blast
  from es'(3) f(3) have "advanced cfg items (run cfg items es) (run cfg items (es @ (CallResume # es')))"
    by (simp add: advanced_def)
  with es'(1,2) show ?thesis by (intro exI[of _ "CallResume # es'"]) simp
qed

lemma can_resolve:
  assumes nc: "CallCancel \<notin> set es" "SignalAbort \<notin> set es"
    and k: "0 < initialBatch cfg items"
  shows "\<exists>es'. CallCancel \<notin> set es' \<and> SignalAbort \<notin> set es' \<and>
           promise (run cfg items (es @ es')) = Resolved"
  using nc
proof (induction "length items - completed (run cfg items es)" arbitrary: es rule: less_induct)
  case less
  show ?case
  proof (cases "promise (run cfg items es)")
    case Resolved
    then show ?thesis by (intro exI[of _ "[]"]) simp
  next
    case (Rejected x)
    with run_rejected[of cfg items es x] less.prems show ?thesis by (simp add: run_flags)
  next
    case Pending
    from advance[OF less.prems Pending k] obtain es' where es':
      "CallCancel \<notin> set es'" "SignalAbort \<notin> set es'"
      "advanced cfg items (run cfg items es) (run cfg items (es @ es'))" by blast
    show ?thesis
    proof (cases "completed (run cfg items es) < length items")
      case False
      with es' show ?thesis by (auto simp: advanced_def)
    next
      case True
      with es'(3) have c: "completed (run cfg items (es @ es')) = Suc (completed (run cfg items es))"
        by (simp add: advanced_def)
      with True have "length items - completed (run cfg items (es @ es')) <
          length items - completed (run cfg items es)" by simp
      from less.hyps[OF this] less.prems es'(1,2)
      obtain es'' where "CallCancel \<notin> set es''" "SignalAbort \<notin> set es''"
        "promise (run cfg items ((es @ es') @ es'')) = Resolved" by auto
      with es'(1,2) show ?thesis by (intro exI[of _ "es' @ es''"]) simp
    qed
  qed
qed

subsection \<open>The concurrency bound\<close>

text \<open>
  Claim C1. With a concurrency limit that is not negative (in particular for every limit
  from 1 to 10) and for every list of items, whatever its length, after any sequence of
  steps of a run of \<^verbatim>\<open>processItems\<close> the number of workers in flight is at most
  \<^verbatim>\<open>maxConcurrent\<close>, and so is the counter \<^verbatim>\<open>activeRequests\<close>, which always equals that
  number.
\<close>

theorem concurrency_bound:
  assumes "0 \<le> maxConcurrent cfg"
  shows "int (length (running (run cfg items es))) \<le> maxConcurrent cfg \<and>
         activeRequests (run cfg items es) = int (length (running (run cfg items es))) \<and>
         activeRequests (run cfg items es) \<le> maxConcurrent cfg"
proof -
  have "length (running (run cfg items es)) \<le> tokens (run cfg items es)"
    by (simp add: tokens_def)
  with run_tokens_le[of cfg items es]
  have "length (running (run cfg items es)) \<le> initialBatch cfg items" by simp
  with assms have "int (length (running (run cfg items es))) \<le> maxConcurrent cfg"
    by (simp add: initialBatch_def)
  then show ?thesis by (simp add: run_active)
qed

theorem concurrency_bound_witness:
  "0 \<le> maxConcurrent \<lparr>maxConcurrent = 2, delayBetweenBatches = 0\<rparr> \<and>
   running (run \<lparr>maxConcurrent = 2, delayBetweenBatches = 0\<rparr> [''a'', ''b'', ''c'']
     [Settles 0, TimerFires]) = [1, 2] \<and>
   activeRequests (run \<lparr>maxConcurrent = 2, delayBetweenBatches = 0\<rparr> [''a'', ''b'', ''c'']
     [Settles 0, TimerFires]) \<le> 2"
proof -
  have h: "0 \<le> maxConcurrent \<lparr>maxConcurrent = 2, delayBetweenBatches = 0\<rparr>" by simp
  have r: "running (run \<lparr>maxConcurrent = 2, delayBetweenBatches = 0\<rparr> [''a'', ''b'', ''c'']
     [Settles 0, TimerFires]) = [1, 2]"
    by code_simp
  from concurrency_bound[OF h, of "[''a'', ''b'', ''c'']" "[Settles 0, TimerFires]"] h r
  show ?thesis by simp
qed

subsection \<open>Every item is claimed once, in order\<close>

text \<open>
  Claim C2. In a run that is never cancelled (neither \<^verbatim>\<open>cancel()\<close> is called nor the signal
  fires), the items handed to the processor so far are exactly the items of index
  \<open>0, 1, \<dots>, completed - 1\<close>, each once and in ascending order; no index beyond the list is
  claimed; when the promise resolves every item of the list has been claimed; and as long
  as an item is unclaimed the scheduler still holds as many pending activities (queued or
  sleeping calls of \<^verbatim>\<open>processNext\<close>, workers in flight, batch delays) as it started with, so
  no item is left behind by a call that returns without claiming. With a concurrency limit
  of at least 1 and a non-empty list, the run can always be continued, without a
  cancellation, to a state in which the promise is resolved and every item has been claimed.
\<close>

theorem claimed_once_in_order:
  assumes "CallCancel \<notin> set es" and "SignalAbort \<notin> set es"
  shows "claimed (run cfg items es) = [0..<completed (run cfg items es)] \<and>
         completed (run cfg items es) \<le> length items \<and>
         (promise (run cfg items es) = Resolved \<longrightarrow> claimed (run cfg items es) = [0..<length items]) \<and>
         (completed (run cfg items es) < length items \<longrightarrow>
            tokens (run cfg items es) = initialBatch cfg items) \<and>
         (1 \<le> maxConcurrent cfg \<and> items \<noteq> [] \<longrightarrow>
            (\<exists>es'. CallCancel \<notin> set es' \<and> SignalAbort \<notin> set es' \<and>
                   promise (run cfg items (es @ es')) = Resolved \<and>
                   claimed (run cfg items (es @ es')) = [0..<length items]))"
proof -
  have "\<exists>es'. CallCancel \<notin> set es' \<and> SignalAbort \<notin> set es' \<and>
              promise (run cfg items (es @ es')) = Resolved \<and>
              claimed (run cfg items (es @ es')) = [0..<length items]"
    if "1 \<le> maxConcurrent cfg" "items \<noteq> []"
  proof -
    from that have "0 < initialBatch cfg items" by (simp add: initialBatch_def)
    from can_resolve[OF assms this] obtain es' where
      "CallCancel \<notin> set es'" "SignalAbort \<notin> set es'" "promise (run cfg items (es @ es')) = Resolved"
      by blast
    with run_resolved[of cfg items "es @ es'"] run_claimed[of cfg items "es @ es'"]
    show ?thesis by auto
  qed
  with assms run_claimed[of cfg items es] run_completed_le[of cfg items es]
    run_resolved[of cfg items es] run_tokens_eq[of cfg items es]
  show ?thesis by (simp add: run_flags)
qed

theorem claimed_once_in_order_witness:
  "CallCancel \<notin> set [Settles 0, TimerFires, CallPause, Settles 2, TimerFires, CallResume, PauseTick,
                      Settles 1, TimerFires] \<and>
   SignalAbort \<notin> set [Settles 0, TimerFires, CallPause, Settles 2, TimerFires, CallResume, PauseTick,
                      Settles 1, TimerFires] \<and>
   promise (run \<lparr>maxConcurrent = 2, delayBetweenBatches = 0\<rparr> [''a'', ''b'', ''c'']
     [Settles 0, TimerFires, CallPause, Settles 2, TimerFires, CallResume, PauseTick,
      Settles 1, TimerFires]) = Resolved \<and>
   claimed (run \<lparr>maxConcurrent = 2, delayBetweenBatches = 0\<rparr> [''a'', ''b'', ''c'']
     [Settles 0, TimerFires, CallPause, Settles 2, TimerFires, CallResume, PauseTick,
      Settles 1, TimerFires]) = [0, 1, 2]"
proof -
  let ?es = "[Settles 0, TimerFires, CallPause, Settles 2, TimerFires, CallResume, PauseTick,
              Settles 1, TimerFires]"
  let ?cfg = "\<lparr>maxConcurrent = 2, delayBetweenBatches = 0\<rparr>"
  have h: "CallCancel \<notin> set ?es" "SignalAbort \<notin> set ?es" by simp_all
  have r: "promise (run ?cfg [''a'', ''b'', ''c''] ?es) = Resolved"
    by code_simp
  have c: "completed (run ?cfg [''a'', ''b'', ''c''] ?es) = 3"
    by code_simp
  have "claimed (run ?cfg [''a'', ''b'', ''c''] ?es) = [0..<3]"
    using claimed_once_in_order[OF h, of ?cfg "[''a'', ''b'', ''c'']"] c by simp
  also have "[0..<3] = [0, 1, 2::nat]" by code_simp
  finally show ?thesis using h r by simp
qed

subsection \<open>When the promise resolves\<close>

text \<open>
  Claim C3 says the promise resolves only after every dispatched worker has settled. It
  does not: \<^verbatim>\<open>completed\<close> counts the items claimed, not the items finished. With two
  items and \<^verbatim>\<open>maxConcurrent = 2\<close> both are claimed at once; when the first worker settles,
  the call of \<^verbatim>\<open>processNext\<close> it schedules finds \<^verbatim>\<open>completed >= items.length\<close> and resolves
  the promise while the second worker is still in flight.
\<close>

theorem resolves_with_worker_in_flight:
  "promise (run \<lparr>maxConcurrent = 2, delayBetweenBatches = 0\<rparr> [''a'', ''b''] [Settles 0, TimerFires])
     = Resolved \<and>
   running (run \<lparr>maxConcurrent = 2, delayBetweenBatches = 0\<rparr> [''a'', ''b''] [Settles 0, TimerFires])
     = [1] \<and>
   activeRequests (run \<lparr>maxConcurrent = 2, delayBetweenBatches = 0\<rparr> [''a'', ''b''] [Settles 0, TimerFires])
     = 1"
  by code_simp

section \<open>The engine: invariants of a run\<close>

lemma startsOf_call [simp]:
  "startsOf k (call at c s) = (if at = AtStart k then Suc (startsOf k s) else startsOf k s)"
  by (simp add: startsOf_def call_def)

lemma endsOf_call [simp]:
  "endsOf k (call at c s) = (if at = AtEnd k then Suc (endsOf k s) else endsOf k s)"
  by (simp add: endsOf_def call_def)

lemma call_fields [simp]:
  "rateLimiter (call at c s) = rateLimiter s"
  "enginePaused (call at c s) = enginePaused s"
  "urlsCompleted (call at c s) = urlsCompleted s"
  "workers (call at c s) = workers s"
  "calls (call at c s) = calls s @ [(at, c)]"
  "signalAborted (call at c s) = signalAborted s"
  by (simp_all add: call_def signalAborted_def)

lemma counts_upd [simp]:
  "startsOf k (s\<lparr>workers := w\<rparr>) = startsOf k s"
  "endsOf k (s\<lparr>workers := w\<rparr>) = endsOf k s"
  "startsOf k (s\<lparr>urlsCompleted := n\<rparr>) = startsOf k s"
  "endsOf k (s\<lparr>urlsCompleted := n\<rparr>) = endsOf k s"
  "startsOf k (s\<lparr>rateLimiter := l\<rparr>) = startsOf k s"
  "endsOf k (s\<lparr>rateLimiter := l\<rparr>) = endsOf k s"
  "startsOf k (s\<lparr>enginePaused := b\<rparr>) = startsOf k s"
  "endsOf k (s\<lparr>enginePaused := b\<rparr>) = endsOf k s"
  by (simp_all add: startsOf_def endsOf_def)

lemma signalAborted_upd [simp]:
  "signalAborted (s\<lparr>workers := w\<rparr>) = signalAborted s"
  "signalAborted (s\<lparr>urlsCompleted := n\<rparr>) = signalAborted s"
  "signalAborted (s\<lparr>enginePaused := b\<rparr>) = signalAborted s"
  "signalAborted (s\<lparr>rateLimiter := l\<rparr>) = aborted l"
  by (simp_all add: signalAborted_def)

lemma afterAuditUrl_fields:
  "rateLimiter (afterAuditUrl urls i (Inr rs) s) = rateLimiter s"
  "enginePaused (afterAuditUrl urls i (Inr rs) s) = enginePaused s"
  "urlsCompleted (afterAuditUrl urls i (Inr rs) s) = Suc (urlsCompleted s)"
  "workers (afterAuditUrl urls i (Inr rs) s) = (workers s)(i := Returned)"
  "startsOf k (afterAuditUrl urls i (Inr rs) s) = startsOf k s"
  "endsOf k (afterAuditUrl urls i (Inr rs) s) = (if k = i then Suc (endsOf k s) else endsOf k s)"
  "calls (afterAuditUrl urls i (Inr rs) s) =
     calls s @ (if rs \<noteq> [] then [(InTry i, OnResults rs)] else []) @
       [(AtEnd i, OnProgress (if Suc (urlsCompleted s) < length urls then urls ! Suc (urlsCompleted s) else [])
                    (Suc (urlsCompleted s)) (length urls))]"
  by (simp_all add: afterAuditUrl_def Let_def)

lemma auditUrlFrom_fields:
  "rateLimiter (auditUrlFrom urls i j acc s) = rateLimiter s"
  "enginePaused (auditUrlFrom urls i j acc s) = enginePaused s"
  "urlsCompleted (auditUrlFrom urls i j acc s) =
     (if j < length auditors \<and> \<not> signalAborted s then urlsCompleted s else Suc (urlsCompleted s))"
  "workers (auditUrlFrom urls i j acc s) =
     (workers s)(i := (if j < length auditors \<and> \<not> signalAborted s then Fetching j acc else Returned))"
  "startsOf k (auditUrlFrom urls i j acc s) = startsOf k s"
  "endsOf k (auditUrlFrom urls i j acc s) =
     (if k = i \<and> \<not> (j < length auditors \<and> \<not> signalAborted s) then Suc (endsOf k s) else endsOf k s)"
  by (simp_all add: auditUrlFrom_def afterAuditUrl_fields)

lemma afterPauseUrl_fields:
  "rateLimiter (afterPauseUrl urls i s) = rateLimiter s"
  "enginePaused (afterPauseUrl urls i s) = enginePaused s"
  "urlsCompleted (afterPauseUrl urls i s) =
     (if \<not> signalAborted s then urlsCompleted s else Suc (urlsCompleted s))"
  "workers (afterPauseUrl urls i s) =
     (workers s)(i := (if \<not> signalAborted s then Fetching 0 [] else Returned))"
  "startsOf k (afterPauseUrl urls i s) = (if k = i then Suc (startsOf k s) else startsOf k s)"
  "endsOf k (afterPauseUrl urls i s) =
     (if k = i \<and> signalAborted s then Suc (endsOf k s) else endsOf k s)"
  by (simp_all add: afterPauseUrl_def auditUrlFrom_fields auditors_def)

lemma processUrl_fields:
  "rateLimiter (processUrl urls i s) = rateLimiter s"
  "enginePaused (processUrl urls i s) = enginePaused s"
  "urlsCompleted (processUrl urls i s) = urlsCompleted s"
  "workers (processUrl urls i s) =
     (workers s)(i := (if signalAborted s then Thrown else if enginePaused s then Sleeping else Fetching 0 []))"
  "startsOf k (processUrl urls i s) =
     (if k = i \<and> \<not> signalAborted s \<and> \<not> enginePaused s then Suc (startsOf k s) else startsOf k s)"
  "endsOf k (processUrl urls i s) = endsOf k s"
  by (simp_all add: processUrl_def afterPauseUrl_fields)


lemma workerPauseTick_eq:
  "workerPauseTick urls i s =
     (if workers s i = Sleeping \<and> (\<not> enginePaused s \<or> signalAborted s) then afterPauseUrl urls i s else s)"
  by (simp add: workerPauseTick_def)

lemma fetchReturns_eq:
  "fetchReturns urls i r s =
     (case workers s i of
        Fetching j acc \<Rightarrow> auditUrlFrom urls i (Suc j) (acc @ auditResults urls i j r s) s
      | _ \<Rightarrow> s)"
  by (simp add: fetchReturns_def auditResults_def split: worker.split sum.split)

lemma startAuditSettles_fields:
  "rateLimiter (startAuditSettles p s) = rateLimiter s"
  "enginePaused (startAuditSettles p s) = enginePaused s"
  "urlsCompleted (startAuditSettles p s) = urlsCompleted s"
  "workers (startAuditSettles p s) = workers s"
  "startsOf k (startAuditSettles p s) = startsOf k s"
  "endsOf k (startAuditSettles p s) = endsOf k s"
  "signalAborted (startAuditSettles p s) = signalAborted s"
  by (simp_all add: startAuditSettles_def split: promiseState.split)

lemma inLimiter_rateLimiter: "rateLimiter (inLimiter urls f s) = f (rateLimiter s)"
  by (simp add: inLimiter_def Let_def startAuditSettles_fields processUrl_fields)

lemma engineStep_rateLimiter:
  "rateLimiter (engineStep cfg urls s a) =
     (case a of
        TimerRuns \<Rightarrow> timerFires cfg urls (rateLimiter s)
      | LimiterPauseTick \<Rightarrow> pauseTick cfg urls (rateLimiter s)
      | WorkerSettles i \<Rightarrow>
          if workerSettled (workers s i) then finallyBlock cfg urls i (rateLimiter s) else rateLimiter s
      | DelayEnds \<Rightarrow> delayElapsed (rateLimiter s)
      | WorkerPauseTick i \<Rightarrow> rateLimiter s
      | FetchReturns i r \<Rightarrow> rateLimiter s
      | Pause \<Rightarrow> pause (rateLimiter s)
      | Resume \<Rightarrow> resume (rateLimiter s)
      | Cancel \<Rightarrow> cancel (abort (rateLimiter s)))"
  by (cases a)
     (simp_all add: inLimiter_rateLimiter workerPauseTick_eq afterPauseUrl_fields fetchReturns_eq
        auditUrlFrom_fields split: worker.split)


lemma claim_summary:
  "(completed (afterPause cfg items l) = completed l \<and> running (afterPause cfg items l) = running l) \<or>
   (completed (afterPause cfg items l) = Suc (completed l) \<and>
    running (afterPause cfg items l) = running l @ [completed l])"
  "(completed (processNext cfg items l) = completed l \<and> running (processNext cfg items l) = running l) \<or>
   (completed (processNext cfg items l) = Suc (completed l) \<and>
    running (processNext cfg items l) = running l @ [completed l])"
  "(completed (timerFires cfg items l) = completed l \<and> running (timerFires cfg items l) = running l) \<or>
   (completed (timerFires cfg items l) = Suc (completed l) \<and>
    running (timerFires cfg items l) = running l @ [completed l])"
  "(completed (pauseTick cfg items l) = completed l \<and> running (pauseTick cfg items l) = running l) \<or>
   (completed (pauseTick cfg items l) = Suc (completed l) \<and>
    running (pauseTick cfg items l) = running l @ [completed l])"
  by (simp_all add: step_fields)

lemma aborted_same:
  "aborted (processNext cfg items l) = aborted l"
  "aborted (timerFires cfg items l) = aborted l"
  "aborted (pauseTick cfg items l) = aborted l"
  "aborted (finallyBlock cfg items i l) = aborted l"
  "aborted (delayElapsed l) = aborted l"
  by (simp_all add: step_fields)

lemma workerInv_inLimiter:
  assumes inv: "\<And>i. workerInv s i"
    and ab: "aborted (f (rateLimiter s)) = aborted (rateLimiter s)"
    and eff: "(completed (f (rateLimiter s)) = completed (rateLimiter s) \<and>
               (\<forall>i. inFlight (workers s i) \<longrightarrow> i \<in> set (running (f (rateLimiter s))))) \<or>
              (completed (f (rateLimiter s)) = Suc (completed (rateLimiter s)) \<and>
               running (f (rateLimiter s)) = running (rateLimiter s) @ [completed (rateLimiter s)])"
  shows "workerInv (inLimiter urls f s) k"
proof -
  let ?l = "rateLimiter s" and ?c = "completed (rateLimiter s)"
  from eff show ?thesis
  proof
    assume same: "completed (f ?l) = ?c \<and> (\<forall>i. inFlight (workers s i) \<longrightarrow> i \<in> set (running (f ?l)))"
    then show ?thesis
      using inv[of k] ab
      by (simp add: inLimiter_def Let_def workerInv_def startAuditSettles_fields signalAborted_def)
  next
    assume claim: "completed (f ?l) = Suc ?c \<and> running (f ?l) = running ?l @ [?c]"
    have idle: "workers s ?c = Idle" using inv[of ?c] by (simp add: workerInv_def)
    show ?thesis
    proof (cases "k = ?c")
      case True
      with claim idle inv[of k] ab show ?thesis
        by (simp add: inLimiter_def Let_def workerInv_def startAuditSettles_fields processUrl_fields
            signalAborted_def inFlight_def started_def)
    next
      case False
      with claim inv[of k] ab show ?thesis
        by (auto simp add: inLimiter_def Let_def workerInv_def startAuditSettles_fields processUrl_fields
            signalAborted_def)
    qed
  qed
qed

lemma workerInv_worker_step:
  assumes inv: "\<And>i. workerInv s i"
    and w: "inFlight (workers s i0)"
    and s': "rateLimiter s' = rateLimiter s"
      "workers s' = (workers s)(i0 := w')" "w' \<noteq> Idle" "w' \<noteq> Thrown"
      "\<And>k. startsOf k s' = (if k = i0 \<and> started w' \<and> \<not> started (workers s i0) then Suc (startsOf k s) else startsOf k s)"
      "\<And>k. endsOf k s' = (if k = i0 \<and> w' = Returned then Suc (endsOf k s) else endsOf k s)"
      "started (workers s i0) \<longrightarrow> started w'"
  shows "workerInv s' k"
proof (cases "k = i0")
  case True
  with inv[of i0] w s' show ?thesis
    by (auto simp: workerInv_def signalAborted_def inFlight_def started_def split: worker.splits)
next
  case False
  with inv[of k] s' show ?thesis
    by (simp add: workerInv_def signalAborted_def)
qed


lemma workerInv_flags:
  assumes inv: "\<And>i. workerInv s i"
    and l: "completed l = completed (rateLimiter s)" "running l = running (rateLimiter s)"
      "aborted (rateLimiter s) \<longrightarrow> aborted l"
  shows "workerInv (s\<lparr>rateLimiter := l\<rparr>) k" "workerInv (s\<lparr>enginePaused := b, rateLimiter := l\<rparr>) k"
  using inv[of k] l by (simp_all add: workerInv_def signalAborted_def)

lemma workerInv_step:
  assumes inv: "\<And>i. workerInv s i"
  shows "workerInv (engineStep cfg urls s a) k"
proof (cases a)
  case TimerRuns
  have "workerInv (inLimiter urls (timerFires cfg urls) s) k"
  proof (rule workerInv_inLimiter[OF inv])
    show "aborted (timerFires cfg urls (rateLimiter s)) = aborted (rateLimiter s)"
      by (rule aborted_same)
    show "(completed (timerFires cfg urls (rateLimiter s)) = completed (rateLimiter s) \<and>
           (\<forall>i. inFlight (workers s i) \<longrightarrow> i \<in> set (running (timerFires cfg urls (rateLimiter s))))) \<or>
          (completed (timerFires cfg urls (rateLimiter s)) = Suc (completed (rateLimiter s)) \<and>
           running (timerFires cfg urls (rateLimiter s)) = running (rateLimiter s) @ [completed (rateLimiter s)])"
      using claim_summary(3)[of cfg urls "rateLimiter s"] inv by (auto simp: workerInv_def)
  qed
  with TimerRuns show ?thesis by simp
next
  case LimiterPauseTick
  have "workerInv (inLimiter urls (pauseTick cfg urls) s) k"
  proof (rule workerInv_inLimiter[OF inv])
    show "aborted (pauseTick cfg urls (rateLimiter s)) = aborted (rateLimiter s)"
      by (rule aborted_same)
    show "(completed (pauseTick cfg urls (rateLimiter s)) = completed (rateLimiter s) \<and>
           (\<forall>i. inFlight (workers s i) \<longrightarrow> i \<in> set (running (pauseTick cfg urls (rateLimiter s))))) \<or>
          (completed (pauseTick cfg urls (rateLimiter s)) = Suc (completed (rateLimiter s)) \<and>
           running (pauseTick cfg urls (rateLimiter s)) = running (rateLimiter s) @ [completed (rateLimiter s)])"
      using claim_summary(4)[of cfg urls "rateLimiter s"] inv by (auto simp: workerInv_def)
  qed
  with LimiterPauseTick show ?thesis by simp
next
  case (WorkerSettles i0)
  show ?thesis
  proof (cases "workerSettled (workers s i0)")
    case False
    with WorkerSettles inv[of k] show ?thesis by simp
  next
    case True
    have "workerInv (inLimiter urls (finallyBlock cfg urls i0) s) k"
    proof (rule workerInv_inLimiter[OF inv])
      show "aborted (finallyBlock cfg urls i0 (rateLimiter s)) = aborted (rateLimiter s)"
        by (rule aborted_same)
      have "i \<in> set (running (finallyBlock cfg urls i0 (rateLimiter s)))" if "inFlight (workers s i)" for i
      proof -
        from that True have "i \<noteq> i0" by (auto simp: inFlight_def workerSettled_def)
        moreover from that inv[of i] have "i \<in> set (running (rateLimiter s))" by (simp add: workerInv_def)
        ultimately show ?thesis by (simp add: finallyBlock_fields)
      qed
      then show "(completed (finallyBlock cfg urls i0 (rateLimiter s)) = completed (rateLimiter s) \<and>
           (\<forall>i. inFlight (workers s i) \<longrightarrow> i \<in> set (running (finallyBlock cfg urls i0 (rateLimiter s))))) \<or>
          (completed (finallyBlock cfg urls i0 (rateLimiter s)) = Suc (completed (rateLimiter s)) \<and>
           running (finallyBlock cfg urls i0 (rateLimiter s)) = running (rateLimiter s) @ [completed (rateLimiter s)])"
        by (simp add: finallyBlock_fields)
    qed
    with WorkerSettles True show ?thesis by simp
  qed
next
  case DelayEnds
  have "workerInv (inLimiter urls delayElapsed s) k"
  proof (rule workerInv_inLimiter[OF inv])
    show "aborted (delayElapsed (rateLimiter s)) = aborted (rateLimiter s)"
      by (rule aborted_same)
    show "(completed (delayElapsed (rateLimiter s)) = completed (rateLimiter s) \<and>
           (\<forall>i. inFlight (workers s i) \<longrightarrow> i \<in> set (running (delayElapsed (rateLimiter s))))) \<or>
          (completed (delayElapsed (rateLimiter s)) = Suc (completed (rateLimiter s)) \<and>
           running (delayElapsed (rateLimiter s)) = running (rateLimiter s) @ [completed (rateLimiter s)])"
      using inv by (auto simp: workerInv_def delayElapsed_def)
  qed
  with DelayEnds show ?thesis by simp
next
  case (WorkerPauseTick i0)
  show ?thesis
  proof (cases "workers s i0 = Sleeping \<and> (\<not> enginePaused s \<or> signalAborted s)")
    case False
    then have "workerPauseTick urls i0 s = s" by (auto simp: workerPauseTick_eq)
    with WorkerPauseTick inv[of k] show ?thesis by simp
  next
    case True
    have "workerInv (afterPauseUrl urls i0 s) k"
      by (rule workerInv_worker_step[OF inv, of i0 _ "if \<not> signalAborted s then Fetching 0 [] else Returned"])
         (use True in \<open>simp_all add: afterPauseUrl_fields inFlight_def started_def\<close>)
    with WorkerPauseTick True show ?thesis by (simp add: workerPauseTick_eq)
  qed
next
  case (FetchReturns i0 r)
  show ?thesis
  proof (cases "workers s i0")
    case (Fetching j acc)
    have "workerInv (auditUrlFrom urls i0 (Suc j) (acc @ auditResults urls i0 j r s) s) k"
      by (rule workerInv_worker_step[OF inv, of i0 _
            "if Suc j < length auditors \<and> \<not> signalAborted s
             then Fetching (Suc j) (acc @ auditResults urls i0 j r s) else Returned"])
         (use Fetching in \<open>simp_all add: auditUrlFrom_fields inFlight_def started_def\<close>)
    with FetchReturns Fetching show ?thesis by (simp add: fetchReturns_eq)
  qed (use FetchReturns inv[of k] in \<open>simp_all add: fetchReturns_eq\<close>)
next
  case Pause
  with workerInv_flags(2)[OF inv, of "pause (rateLimiter s)" True k] show ?thesis
    by (simp add: pause_def)
next
  case Resume
  with workerInv_flags(2)[OF inv, of "resume (rateLimiter s)" False k] show ?thesis
    by (simp add: resume_def)
next
  case Cancel
  with workerInv_flags(1)[OF inv, of "cancel (abort (rateLimiter s))" k] show ?thesis
    by (simp add: cancel_def abort_def)
qed

lemma funpow_inLimiter:
  "rateLimiter (((inLimiter urls f) ^^ k) s) = (f ^^ k) (rateLimiter s)"
  by (induction k) (simp_all add: inLimiter_rateLimiter)

lemma startAudit_rateLimiter:
  "rateLimiter (startAudit cfg urls) = processItems cfg urls newRateLimiter"
  by (simp add: startAudit_def funpow_inLimiter processItems_def newAuditEngine_def)

lemma audit_run_snoc: "audit_run cfg urls (as @ [a]) = engineStep cfg urls (audit_run cfg urls as) a"
  by (simp add: audit_run_def)

lemma audit_run_Nil: "audit_run cfg urls [] = startAudit cfg urls"
  by (simp add: audit_run_def)

lemma run_twice: "run cfg items (es @ [e1, e2]) = step cfg items (step cfg items (run cfg items es) e1) e2"
  by (simp add: run_def)

lemma limiter_of_run:
  "\<exists>es. rateLimiter (audit_run cfg urls as) = run cfg urls es \<and>
        (CallCancel \<in> set es) = (Cancel \<in> set as) \<and> (SignalAbort \<in> set es) = (Cancel \<in> set as)"
proof (induction as rule: rev_induct)
  case Nil
  have "rateLimiter (audit_run cfg urls []) = run cfg urls []"
    by (simp add: audit_run_Nil startAudit_rateLimiter run_def)
  then show ?case by auto
next
  case (snoc a as)
  then obtain es where es: "rateLimiter (audit_run cfg urls as) = run cfg urls es"
    "(CallCancel \<in> set es) = (Cancel \<in> set as)" "(SignalAbort \<in> set es) = (Cancel \<in> set as)"
    by blast
  let ?s = "audit_run cfg urls as"
  note rl = engineStep_rateLimiter[of cfg urls ?s a]
  have "\<exists>es'. rateLimiter (engineStep cfg urls ?s a) = run cfg urls (es @ es') \<and>
      (CallCancel \<in> set es') = (a = Cancel) \<and> (SignalAbort \<in> set es') = (a = Cancel)"
  proof (cases a)
    case TimerRuns
    with rl have "rateLimiter (engineStep cfg urls ?s a) = run cfg urls (es @ [TimerFires])"
      by (simp add: run_snoc es(1))
    with TimerRuns show ?thesis by (intro exI[of _ "[TimerFires]"]) simp
  next
    case LimiterPauseTick
    with rl have "rateLimiter (engineStep cfg urls ?s a) = run cfg urls (es @ [PauseTick])"
      by (simp add: run_snoc es(1))
    with LimiterPauseTick show ?thesis by (intro exI[of _ "[PauseTick]"]) simp
  next
    case (WorkerSettles i)
    show ?thesis
    proof (cases "workerSettled (workers ?s i)")
      case True
      with WorkerSettles rl have "rateLimiter (engineStep cfg urls ?s a) = run cfg urls (es @ [Settles i])"
        by (simp add: run_snoc es(1))
      with WorkerSettles show ?thesis by (intro exI[of _ "[Settles i]"]) simp
    next
      case False
      with WorkerSettles rl have "rateLimiter (engineStep cfg urls ?s a) = run cfg urls (es @ [])"
        by (simp add: es(1))
      with WorkerSettles show ?thesis by (intro exI[of _ "[]"]) simp
    qed
  next
    case DelayEnds
    with rl have "rateLimiter (engineStep cfg urls ?s a) = run cfg urls (es @ [DelayElapsed])"
      by (simp add: run_snoc es(1))
    with DelayEnds show ?thesis by (intro exI[of _ "[DelayElapsed]"]) simp
  next
    case (WorkerPauseTick i)
    with rl have "rateLimiter (engineStep cfg urls ?s a) = run cfg urls (es @ [])"
      by (simp add: es(1))
    with WorkerPauseTick show ?thesis by (intro exI[of _ "[]"]) simp
  next
    case (FetchReturns i r)
    with rl have "rateLimiter (engineStep cfg urls ?s a) = run cfg urls (es @ [])"
      by (simp add: es(1))
    with FetchReturns show ?thesis by (intro exI[of _ "[]"]) simp
  next
    case Pause
    with rl have "rateLimiter (engineStep cfg urls ?s a) = run cfg urls (es @ [CallPause])"
      by (simp add: run_snoc es(1))
    with Pause show ?thesis by (intro exI[of _ "[CallPause]"]) simp
  next
    case Resume
    with rl have "rateLimiter (engineStep cfg urls ?s a) = run cfg urls (es @ [CallResume])"
      by (simp add: run_snoc es(1))
    with Resume show ?thesis by (intro exI[of _ "[CallResume]"]) simp
  next
    case Cancel
    with rl have "rateLimiter (engineStep cfg urls ?s a) = run cfg urls (es @ [SignalAbort, CallCancel])"
      by (simp add: run_twice es(1))
    with Cancel show ?thesis by (intro exI[of _ "[SignalAbort, CallCancel]"]) simp
  qed
  then obtain es' where "rateLimiter (engineStep cfg urls ?s a) = run cfg urls (es @ es')"
    "(CallCancel \<in> set es') = (a = Cancel)" "(SignalAbort \<in> set es') = (a = Cancel)" by blast
  with es(2,3) have "rateLimiter (audit_run cfg urls (as @ [a])) = run cfg urls (es @ es') \<and>
      (CallCancel \<in> set (es @ es')) = (Cancel \<in> set (as @ [a])) \<and>
      (SignalAbort \<in> set (es @ es')) = (Cancel \<in> set (as @ [a]))"
    by (auto simp: audit_run_snoc)
  then show ?case by blast
qed

lemma workerInv_new: "workerInv (newAuditEngine\<lparr>enginePaused := False,
          rateLimiter := (rateLimiter newAuditEngine)\<lparr>isCancelled := False\<rparr>\<rparr>) k"
  by (simp add: workerInv_def newAuditEngine_def newRateLimiter_def startsOf_def endsOf_def
      inFlight_def started_def)

lemma workerInv_processNext:
  assumes inv: "\<And>i. workerInv s i"
  shows "workerInv (inLimiter urls (processNext cfg urls) s) k"
proof (rule workerInv_inLimiter[OF inv])
  show "aborted (processNext cfg urls (rateLimiter s)) = aborted (rateLimiter s)"
    by (rule aborted_same)
  show "(completed (processNext cfg urls (rateLimiter s)) = completed (rateLimiter s) \<and>
         (\<forall>i. inFlight (workers s i) \<longrightarrow> i \<in> set (running (processNext cfg urls (rateLimiter s))))) \<or>
        (completed (processNext cfg urls (rateLimiter s)) = Suc (completed (rateLimiter s)) \<and>
         running (processNext cfg urls (rateLimiter s)) = running (rateLimiter s) @ [completed (rateLimiter s)])"
    using claim_summary(2)[of cfg urls "rateLimiter s"] inv by (auto simp: workerInv_def)
qed

lemma workerInv_funpow:
  assumes "\<And>i. workerInv s i"
  shows "workerInv (((inLimiter urls (processNext cfg urls)) ^^ n) s) k"
  using assms
proof (induction n arbitrary: k)
  case 0
  then show ?case by simp
next
  case (Suc n)
  then show ?case by (simp add: workerInv_processNext)
qed

lemma workerInv_run: "workerInv (audit_run cfg urls as) k"
proof (induction as arbitrary: k rule: rev_induct)
  case Nil
  show ?case by (simp add: audit_run_Nil startAudit_def workerInv_funpow workerInv_new)
next
  case (snoc a as)
  then show ?case by (simp add: audit_run_snoc workerInv_step)
qed

lemma inLimiter_fields:
  "urlsCompleted (inLimiter urls f s) = urlsCompleted s"
  "enginePaused (inLimiter urls f s) = enginePaused s"
  "workers (inLimiter urls f s) =
     (if completed (f (rateLimiter s)) = Suc (completed (rateLimiter s))
      then (workers s)(completed (rateLimiter s) :=
             (if aborted (f (rateLimiter s)) then Thrown
              else if enginePaused s then Sleeping else Fetching 0 []))
      else workers s)"
  by (simp_all add: inLimiter_def Let_def startAuditSettles_fields processUrl_fields)

lemma finite_returnedSet: "finite (returnedSet urls s)"
  by (simp add: returnedSet_def)

lemma returnedSet_same:
  assumes "workers s' = (workers s)(i0 := w)" "w \<noteq> Returned" "workers s i0 \<noteq> Returned"
  shows "returnedSet urls s' = returnedSet urls s"
  using assms by (auto simp: returnedSet_def)

lemma returnedSet_insert:
  assumes "workers s' = (workers s)(i0 := Returned)" "i0 < length urls"
  shows "returnedSet urls s' = insert i0 (returnedSet urls s)"
  using assms by (auto simp: returnedSet_def)

lemma count_worker_step:
  assumes eq: "urlsCompleted s = card (returnedSet urls s)"
    and w: "workers s i0 \<noteq> Returned" "i0 < length urls"
    and s': "workers s' = (workers s)(i0 := w')"
      "urlsCompleted s' = (if w' = Returned then Suc (urlsCompleted s) else urlsCompleted s)"
  shows "urlsCompleted s' = card (returnedSet urls s')"
proof (cases "w' = Returned")
  case True
  with s'(1) w(2) have "returnedSet urls s' = insert i0 (returnedSet urls s)"
    by (simp add: returnedSet_insert)
  moreover have "i0 \<notin> returnedSet urls s" using w(1) by (simp add: returnedSet_def)
  ultimately show ?thesis using eq s'(2) True by (simp add: finite_returnedSet)
next
  case False
  with s'(1) w(1) have "returnedSet urls s' = returnedSet urls s"
    by (simp add: returnedSet_same)
  with eq s'(2) False show ?thesis by simp
qed

lemma count_inLimiter:
  assumes inv: "\<And>i. workerInv s i"
    and eq: "urlsCompleted s = card (returnedSet urls s)"
  shows "urlsCompleted (inLimiter urls f s) = card (returnedSet urls (inLimiter urls f s))"
proof (cases "completed (f (rateLimiter s)) = Suc (completed (rateLimiter s))")
  case False
  then have "workers (inLimiter urls f s) = workers s" by (simp add: inLimiter_fields)
  then have "returnedSet urls (inLimiter urls f s) = returnedSet urls s" by (simp add: returnedSet_def)
  with eq show ?thesis by (simp add: inLimiter_fields)
next
  case True
  let ?c = "completed (rateLimiter s)"
  let ?w = "if aborted (f (rateLimiter s)) then Thrown else if enginePaused s then Sleeping else Fetching 0 []"
  have "workers s ?c = Idle" using inv[of ?c] by (simp add: workerInv_def)
  then have "returnedSet urls (inLimiter urls f s) = returnedSet urls s"
    using True by (intro returnedSet_same[of _ _ ?c ?w]) (simp_all add: inLimiter_fields)
  with eq show ?thesis by (simp add: inLimiter_fields)
qed

lemma inFlight_index:
  assumes "workerInv s i" "inFlight (workers s i)" "completed (rateLimiter s) \<le> length urls"
  shows "i < length urls" "workers s i \<noteq> Returned"
  using assms by (auto simp: workerInv_def inFlight_def split: worker.splits)

lemma count_step:
  assumes inv: "\<And>i. workerInv s i"
    and le: "completed (rateLimiter s) \<le> length urls"
    and eq: "urlsCompleted s = card (returnedSet urls s)"
  shows "urlsCompleted (engineStep cfg urls s a) = card (returnedSet urls (engineStep cfg urls s a))"
proof (cases a)
  case (WorkerSettles i)
  with count_inLimiter[OF inv eq] eq show ?thesis by simp
next
  case (WorkerPauseTick i0)
  show ?thesis
  proof (cases "workers s i0 = Sleeping \<and> (\<not> enginePaused s \<or> signalAborted s)")
    case False
    then have "workerPauseTick urls i0 s = s" by (auto simp: workerPauseTick_eq)
    with WorkerPauseTick eq show ?thesis by simp
  next
    case True
    then have fl: "inFlight (workers s i0)" by (simp add: inFlight_def)
    have "urlsCompleted (afterPauseUrl urls i0 s) = card (returnedSet urls (afterPauseUrl urls i0 s))"
      by (rule count_worker_step[OF eq inFlight_index(2)[OF inv fl le] inFlight_index(1)[OF inv fl le],
            of _ "if \<not> signalAborted s then Fetching 0 [] else Returned"])
         (simp_all add: afterPauseUrl_fields)
    with WorkerPauseTick True show ?thesis by (simp add: workerPauseTick_eq)
  qed
next
  case (FetchReturns i0 r)
  show ?thesis
  proof (cases "workers s i0")
    case (Fetching j acc)
    then have fl: "inFlight (workers s i0)" by (simp add: inFlight_def)
    have "urlsCompleted (auditUrlFrom urls i0 (Suc j) (acc @ auditResults urls i0 j r s) s) =
        card (returnedSet urls (auditUrlFrom urls i0 (Suc j) (acc @ auditResults urls i0 j r s) s))"
      by (rule count_worker_step[OF eq inFlight_index(2)[OF inv fl le] inFlight_index(1)[OF inv fl le],
            of _ "if Suc j < length auditors \<and> \<not> signalAborted s
                  then Fetching (Suc j) (acc @ auditResults urls i0 j r s) else Returned"])
         (simp_all add: auditUrlFrom_fields)
    with FetchReturns Fetching show ?thesis by (simp add: fetchReturns_eq)
  qed (use FetchReturns eq in \<open>simp_all add: fetchReturns_eq\<close>)
qed (use count_inLimiter[OF inv eq] eq in \<open>simp_all add: returnedSet_def\<close>)

lemma engine_completed_le: "completed (rateLimiter (audit_run cfg urls as)) \<le> length urls"
  using limiter_of_run[of cfg urls as] run_completed_le[of cfg urls] by auto

lemma funpow_fields:
  "urlsCompleted (((inLimiter urls f) ^^ n) s) = urlsCompleted s"
  by (induction n) (simp_all add: inLimiter_fields)

lemma count_funpow:
  assumes "\<And>i. workerInv s i" "urlsCompleted s = card (returnedSet urls s)"
  shows "urlsCompleted (((inLimiter urls (processNext cfg urls)) ^^ n) s) =
         card (returnedSet urls (((inLimiter urls (processNext cfg urls)) ^^ n) s))"
  using assms
proof (induction n)
  case 0
  then show ?case by simp
next
  case (Suc n)
  have "\<And>i. workerInv (((inLimiter urls (processNext cfg urls)) ^^ n) s) i"
    using Suc.prems(1) by (rule workerInv_funpow)
  from count_inLimiter[OF this Suc.IH[OF Suc.prems]] show ?case by simp
qed

lemma count_run:
  "urlsCompleted (audit_run cfg urls as) = card (returnedSet urls (audit_run cfg urls as))"
proof (induction as rule: rev_induct)
  case Nil
  have "urlsCompleted (newAuditEngine\<lparr>enginePaused := False,
          rateLimiter := (rateLimiter newAuditEngine)\<lparr>isCancelled := False\<rparr>\<rparr>) =
        card (returnedSet urls (newAuditEngine\<lparr>enginePaused := False,
          rateLimiter := (rateLimiter newAuditEngine)\<lparr>isCancelled := False\<rparr>\<rparr>))"
    by (simp add: newAuditEngine_def returnedSet_def)
  from count_funpow[OF workerInv_new this] show ?case
    by (simp add: audit_run_Nil startAudit_def)
next
  case (snoc a as)
  from count_step[OF workerInv_run engine_completed_le snoc] show ?case
    by (simp add: audit_run_snoc)
qed

lemma lastReported_upd [simp]:
  "lastReported urls (s\<lparr>workers := w\<rparr>) = lastReported urls s"
  "lastReported urls (s\<lparr>rateLimiter := l\<rparr>) = lastReported urls s"
  "lastReported urls (s\<lparr>enginePaused := b\<rparr>) = lastReported urls s"
  by (simp_all add: lastReported_def)

lemma lastReported_call: "lastReported urls s \<Longrightarrow> lastReported urls (call at c s)"
  by (auto simp: lastReported_def)

lemma lastReported_afterAuditUrl: "lastReported urls (afterAuditUrl urls i (Inr rs) s)"
  by (simp add: lastReported_def afterAuditUrl_fields) blast

lemma lastReported_auditUrlFrom:
  "lastReported urls s \<Longrightarrow> lastReported urls (auditUrlFrom urls i j acc s)"
  by (simp add: auditUrlFrom_def lastReported_afterAuditUrl)

lemma lastReported_afterPauseUrl:
  "lastReported urls s \<Longrightarrow> lastReported urls (afterPauseUrl urls i s)"
  by (simp add: afterPauseUrl_def lastReported_auditUrlFrom lastReported_call)

lemma lastReported_processUrl:
  "lastReported urls s \<Longrightarrow> lastReported urls (processUrl urls i s)"
  by (simp add: processUrl_def lastReported_afterPauseUrl)

lemma lastReported_startAuditSettles:
  "lastReported urls s \<Longrightarrow> lastReported urls (startAuditSettles p s)"
  by (simp add: startAuditSettles_def lastReported_call split: promiseState.split)

lemma lastReported_inLimiter:
  "lastReported urls s \<Longrightarrow> lastReported urls (inLimiter urls f s)"
  by (simp add: inLimiter_def Let_def lastReported_startAuditSettles lastReported_processUrl)

lemma lastReported_step:
  "lastReported urls s \<Longrightarrow> lastReported urls (engineStep cfg urls s a)"
  by (cases a)
     (simp_all add: lastReported_inLimiter workerPauseTick_def lastReported_afterPauseUrl
        fetchReturns_eq lastReported_auditUrlFrom split: worker.split)

lemma lastReported_funpow:
  "lastReported urls s \<Longrightarrow> lastReported urls (((inLimiter urls f) ^^ n) s)"
  by (induction n) (simp_all add: lastReported_inLimiter)

lemma lastReported_run: "lastReported urls (audit_run cfg urls as)"
proof (induction as rule: rev_induct)
  case Nil
  have "lastReported urls (newAuditEngine\<lparr>enginePaused := False,
          rateLimiter := (rateLimiter newAuditEngine)\<lparr>isCancelled := False\<rparr>\<rparr>)"
    by (simp add: lastReported_def newAuditEngine_def)
  then show ?case by (simp add: audit_run_Nil startAudit_def lastReported_funpow)
next
  case (snoc a as)
  then show ?case by (simp add: audit_run_snoc lastReported_step)
qed

lemma onlySystemErrors_upd [simp]:
  "onlySystemErrors (s\<lparr>workers := w\<rparr>) = onlySystemErrors s"
  "onlySystemErrors (s\<lparr>urlsCompleted := n\<rparr>) = onlySystemErrors s"
  "onlySystemErrors (s\<lparr>enginePaused := b\<rparr>) = onlySystemErrors s"
  by (simp_all add: onlySystemErrors_def)

lemma onlySystemErrors_limiter:
  "onlySystemErrors s \<Longrightarrow> (aborted (rateLimiter s) \<longrightarrow> aborted l) \<Longrightarrow>
   onlySystemErrors (s\<lparr>rateLimiter := l\<rparr>)"
  by (auto simp: onlySystemErrors_def signalAborted_def)

lemma onlySystemErrors_call:
  "onlySystemErrors s \<Longrightarrow> \<not> isErrorCall (at, c) \<Longrightarrow> onlySystemErrors (call at c s)"
  by (auto simp: onlySystemErrors_def)

lemma onlySystemErrors_system:
  "onlySystemErrors s \<Longrightarrow> signalAborted s \<Longrightarrow>
   onlySystemErrors (call InStartAudit (OnError ''system'' ''Processing cancelled'') s)"
  by (auto simp: onlySystemErrors_def)

lemma onlySystemErrors_afterAuditUrl:
  "onlySystemErrors s \<Longrightarrow> onlySystemErrors (afterAuditUrl urls i (Inr rs) s)"
  by (simp add: afterAuditUrl_def Let_def onlySystemErrors_call isErrorCall_def)

lemma onlySystemErrors_auditUrlFrom:
  "onlySystemErrors s \<Longrightarrow> onlySystemErrors (auditUrlFrom urls i j acc s)"
  by (simp add: auditUrlFrom_def onlySystemErrors_afterAuditUrl)

lemma onlySystemErrors_afterPauseUrl:
  "onlySystemErrors s \<Longrightarrow> onlySystemErrors (afterPauseUrl urls i s)"
  by (simp add: afterPauseUrl_def onlySystemErrors_auditUrlFrom onlySystemErrors_call isErrorCall_def)

lemma onlySystemErrors_processUrl:
  "onlySystemErrors s \<Longrightarrow> onlySystemErrors (processUrl urls i s)"
  by (simp add: processUrl_def onlySystemErrors_afterPauseUrl)

lemma onlySystemErrors_startAuditSettles:
  assumes "onlySystemErrors s"
    and "\<And>x. promise (rateLimiter s) = Rejected x \<Longrightarrow>
           x = JsError ''Error'' ''Processing cancelled'' \<and> aborted (rateLimiter s)"
  shows "onlySystemErrors (startAuditSettles p s)"
proof (cases "promise (rateLimiter s)")
  case Pending
  with assms(1) show ?thesis by (simp add: startAuditSettles_def)
next
  case Resolved
  with assms(1) show ?thesis
    by (simp add: startAuditSettles_def onlySystemErrors_call isErrorCall_def)
next
  case (Rejected x)
  with assms(2)[of x] have "x = JsError ''Error'' ''Processing cancelled''" "signalAborted s"
    by (simp_all add: signalAborted_def)
  with Rejected assms(1) show ?thesis
    by (simp add: startAuditSettles_def onlySystemErrors_system)
qed

lemma onlySystemErrors_inLimiter:
  assumes "onlySystemErrors s"
    and "aborted (rateLimiter s) \<longrightarrow> aborted (f (rateLimiter s))"
    and "\<And>x. promise (f (rateLimiter s)) = Rejected x \<Longrightarrow>
           x = JsError ''Error'' ''Processing cancelled'' \<and> aborted (f (rateLimiter s))"
  shows "onlySystemErrors (inLimiter urls f s)"
proof -
  let ?s1 = "s\<lparr>rateLimiter := f (rateLimiter s)\<rparr>"
  have 1: "onlySystemErrors ?s1" using assms(1,2) by (rule onlySystemErrors_limiter)
  let ?s2 = "if completed (f (rateLimiter s)) = Suc (completed (rateLimiter s))
             then processUrl urls (completed (rateLimiter s)) ?s1 else ?s1"
  have 2: "onlySystemErrors ?s2" using 1 by (simp add: onlySystemErrors_processUrl)
  have 3: "rateLimiter ?s2 = f (rateLimiter s)" by (simp add: processUrl_fields)
  have "onlySystemErrors (startAuditSettles (promise (rateLimiter s)) ?s2)"
  proof (rule onlySystemErrors_startAuditSettles[OF 2])
    fix x
    assume "promise (rateLimiter ?s2) = Rejected x"
    then have "promise (f (rateLimiter s)) = Rejected x" by (simp only: 3)
    from assms(3)[OF this]
    show "x = JsError ''Error'' ''Processing cancelled'' \<and> aborted (rateLimiter ?s2)"
      by (simp only: 3)
  qed
  then show ?thesis by (simp add: inLimiter_def Let_def)
qed

lemma engine_rejected:
  "promise (rateLimiter (audit_run cfg urls as)) = Rejected x \<Longrightarrow>
   x = JsError ''Error'' ''Processing cancelled'' \<and> aborted (rateLimiter (audit_run cfg urls as)) \<and>
   Cancel \<in> set as"
proof -
  assume r: "promise (rateLimiter (audit_run cfg urls as)) = Rejected x"
  obtain es where es: "rateLimiter (audit_run cfg urls as) = run cfg urls es"
    "(CallCancel \<in> set es) = (Cancel \<in> set as)" "(SignalAbort \<in> set es) = (Cancel \<in> set as)"
    using limiter_of_run[of cfg urls as] by blast
  from r es(1) run_rejected_error[of cfg urls es x] run_rejected[of cfg urls es x]
  have "x = JsError ''Error'' ''Processing cancelled''"
    "isCancelled (run cfg urls es) \<or> aborted (run cfg urls es)" by simp_all
  with es show ?thesis by (auto simp: run_flags)
qed

lemma engine_aborted: "signalAborted (audit_run cfg urls as) = (Cancel \<in> set as)"
proof -
  obtain es where es: "rateLimiter (audit_run cfg urls as) = run cfg urls es"
    "(SignalAbort \<in> set es) = (Cancel \<in> set as)"
    using limiter_of_run[of cfg urls as] by blast
  then show ?thesis by (simp add: signalAborted_def run_flags)
qed

lemma init_limiter:
  assumes "n \<le> initialBatch cfg urls"
  shows "rateLimiter (((inLimiter urls (processNext cfg urls)) ^^ n)
           (newAuditEngine\<lparr>enginePaused := False,
              rateLimiter := (rateLimiter newAuditEngine)\<lparr>isCancelled := False\<rparr>\<rparr>)) =
         newRateLimiter\<lparr>claimed := [0..<n], running := [0..<n], completed := n, activeRequests := int n\<rparr>"
  using init_loop[OF assms] by (simp add: funpow_inLimiter newAuditEngine_def)

lemma onlySystemErrors_init:
  assumes "n \<le> initialBatch cfg urls"
  shows "onlySystemErrors (((inLimiter urls (processNext cfg urls)) ^^ n)
           (newAuditEngine\<lparr>enginePaused := False,
              rateLimiter := (rateLimiter newAuditEngine)\<lparr>isCancelled := False\<rparr>\<rparr>))"
  using assms
proof (induction n)
  case 0
  show ?case by (simp add: onlySystemErrors_def newAuditEngine_def)
next
  case (Suc n)
  let ?t = "((inLimiter urls (processNext cfg urls)) ^^ n)
           (newAuditEngine\<lparr>enginePaused := False,
              rateLimiter := (rateLimiter newAuditEngine)\<lparr>isCancelled := False\<rparr>\<rparr>)"
  from Suc have t: "onlySystemErrors ?t" by simp
  have after: "processNext cfg urls (rateLimiter ?t) =
      newRateLimiter\<lparr>claimed := [0..<Suc n], running := [0..<Suc n], completed := Suc n,
        activeRequests := int (Suc n)\<rparr>"
    using init_limiter[OF Suc.prems] by (simp add: inLimiter_rateLimiter)
  have "onlySystemErrors (inLimiter urls (processNext cfg urls) ?t)"
  proof (rule onlySystemErrors_inLimiter[OF t])
    show "aborted (rateLimiter ?t) \<longrightarrow> aborted (processNext cfg urls (rateLimiter ?t))"
      by (simp add: aborted_same)
  next
    fix x
    assume "promise (processNext cfg urls (rateLimiter ?t)) = Rejected x"
    then show "x = JsError ''Error'' ''Processing cancelled'' \<and>
        aborted (processNext cfg urls (rateLimiter ?t))"
      by (simp add: after newRateLimiter_def)
  qed
  then show ?case by simp
qed

lemma onlySystemErrors_run: "onlySystemErrors (audit_run cfg urls as)"
proof (induction as rule: rev_induct)
  case Nil
  show ?case
    by (simp add: audit_run_Nil startAudit_def onlySystemErrors_init)
next
  case (snoc a as)
  let ?s = "audit_run cfg urls as"
  have rej: "\<And>x. promise (rateLimiter (engineStep cfg urls ?s a)) = Rejected x \<Longrightarrow>
      x = JsError ''Error'' ''Processing cancelled'' \<and> aborted (rateLimiter (engineStep cfg urls ?s a))"
    using engine_rejected[of cfg urls "as @ [a]"] by (simp add: audit_run_snoc)
  have "onlySystemErrors (engineStep cfg urls ?s a)"
  proof (cases a)
    case TimerRuns
    with rej have "onlySystemErrors (inLimiter urls (timerFires cfg urls) ?s)"
      by (intro onlySystemErrors_inLimiter[OF snoc]) (simp_all add: aborted_same inLimiter_rateLimiter)
    with TimerRuns show ?thesis by simp
  next
    case LimiterPauseTick
    with rej have "onlySystemErrors (inLimiter urls (pauseTick cfg urls) ?s)"
      by (intro onlySystemErrors_inLimiter[OF snoc]) (simp_all add: aborted_same inLimiter_rateLimiter)
    with LimiterPauseTick show ?thesis by simp
  next
    case (WorkerSettles i)
    show ?thesis
    proof (cases "workerSettled (workers ?s i)")
      case True
      with WorkerSettles rej have "onlySystemErrors (inLimiter urls (finallyBlock cfg urls i) ?s)"
        by (intro onlySystemErrors_inLimiter[OF snoc]) (simp_all add: aborted_same inLimiter_rateLimiter)
      with WorkerSettles True show ?thesis by simp
    next
      case False
      with WorkerSettles snoc show ?thesis by simp
    qed
  next
    case DelayEnds
    with rej have "onlySystemErrors (inLimiter urls delayElapsed ?s)"
      by (intro onlySystemErrors_inLimiter[OF snoc]) (simp_all add: aborted_same inLimiter_rateLimiter)
    with DelayEnds show ?thesis by simp
  next
    case (WorkerPauseTick i)
    with snoc show ?thesis by (simp add: workerPauseTick_def onlySystemErrors_afterPauseUrl)
  next
    case (FetchReturns i r)
    with snoc show ?thesis
      by (simp add: fetchReturns_eq onlySystemErrors_auditUrlFrom split: worker.split)
  next
    case Pause
    with snoc show ?thesis by (simp add: onlySystemErrors_limiter pause_def)
  next
    case Resume
    with snoc show ?thesis by (simp add: onlySystemErrors_limiter resume_def)
  next
    case Cancel
    with snoc show ?thesis by (simp add: onlySystemErrors_limiter cancel_def abort_def)
  qed
  then show ?case by (simp add: audit_run_snoc)
qed

lemma dispatch_unpaused:
  "completed (processNext cfg items l) = Suc (completed l) \<Longrightarrow> \<not> isPaused l \<and> \<not> aborted l"
  "completed (timerFires cfg items l) = Suc (completed l) \<Longrightarrow> \<not> isPaused l \<and> \<not> aborted l"
  "completed (pauseTick cfg items l) = Suc (completed l) \<Longrightarrow> \<not> isPaused l \<or> isCancelled l \<or> aborted l"
  by (auto simp: step_fields split: if_splits)

lemma limiter_flags_same:
  "isPaused (timerFires cfg items l) = isPaused l" "isCancelled (timerFires cfg items l) = isCancelled l"
  "isPaused (pauseTick cfg items l) = isPaused l" "isCancelled (pauseTick cfg items l) = isCancelled l"
  "isPaused (finallyBlock cfg items i l) = isPaused l" "isCancelled (finallyBlock cfg items i l) = isCancelled l"
  "isPaused (delayElapsed l) = isPaused l" "isCancelled (delayElapsed l) = isCancelled l"
  "isPaused (processNext cfg items l) = isPaused l" "isCancelled (processNext cfg items l) = isCancelled l"
  by (simp_all add: step_fields)

lemma syncInv_inLimiter:
  assumes inv: "syncInv s"
    and flags: "isPaused (f (rateLimiter s)) = isPaused (rateLimiter s)"
      "isCancelled (f (rateLimiter s)) = isCancelled (rateLimiter s)"
      "aborted (f (rateLimiter s)) = aborted (rateLimiter s)"
    and d: "completed (f (rateLimiter s)) = Suc (completed (rateLimiter s)) \<Longrightarrow>
            \<not> isPaused (rateLimiter s) \<or> isCancelled (rateLimiter s) \<or> aborted (rateLimiter s)"
  shows "syncInv (inLimiter urls f s)"
  using inv flags d
  by (auto simp: syncInv_def inLimiter_rateLimiter inLimiter_fields)

lemma syncInv_step: "syncInv s \<Longrightarrow> syncInv (engineStep cfg urls s a)"
proof (cases a)
  case TimerRuns
  assume "syncInv s"
  then have "syncInv (inLimiter urls (timerFires cfg urls) s)"
    using dispatch_unpaused(2)[of cfg urls "rateLimiter s"]
    by (intro syncInv_inLimiter) (simp_all add: limiter_flags_same aborted_same)
  with TimerRuns show ?thesis by simp
next
  case LimiterPauseTick
  assume "syncInv s"
  then have "syncInv (inLimiter urls (pauseTick cfg urls) s)"
    using dispatch_unpaused(3)[of cfg urls "rateLimiter s"]
    by (intro syncInv_inLimiter) (simp_all add: limiter_flags_same aborted_same)
  with LimiterPauseTick show ?thesis by simp
next
  case (WorkerSettles i)
  assume inv: "syncInv s"
  then have "syncInv (inLimiter urls (finallyBlock cfg urls i) s)"
    by (intro syncInv_inLimiter) (simp_all add: limiter_flags_same aborted_same finallyBlock_fields)
  with WorkerSettles inv show ?thesis by simp
next
  case DelayEnds
  assume "syncInv s"
  moreover have "completed (delayElapsed (rateLimiter s)) = completed (rateLimiter s)"
    by (simp add: delayElapsed_def)
  ultimately have "syncInv (inLimiter urls delayElapsed s)"
    by (intro syncInv_inLimiter) (simp_all add: limiter_flags_same aborted_same)
  with DelayEnds show ?thesis by simp
next
  case (WorkerPauseTick i)
  assume "syncInv s"
  with WorkerPauseTick show ?thesis by (simp add: workerPauseTick_def syncInv_def)
next
  case (FetchReturns i r)
  assume "syncInv s"
  with FetchReturns show ?thesis
    by (auto simp: fetchReturns_eq syncInv_def auditUrlFrom_fields split: worker.split)
next
  case Pause
  assume "syncInv s"
  with Pause show ?thesis by (simp add: syncInv_def pause_def)
next
  case Resume
  assume "syncInv s"
  with Resume show ?thesis by (simp add: syncInv_def resume_def)
next
  case Cancel
  assume "syncInv s"
  with Cancel show ?thesis by (simp add: syncInv_def cancel_def abort_def)
qed

lemma syncInv_funpow:
  "syncInv s \<Longrightarrow> syncInv (((inLimiter urls (processNext cfg urls)) ^^ n) s)"
proof (induction n)
  case 0
  then show ?case by simp
next
  case (Suc n)
  then have "syncInv (((inLimiter urls (processNext cfg urls)) ^^ n) s)" by simp
  then have "syncInv (inLimiter urls (processNext cfg urls) (((inLimiter urls (processNext cfg urls)) ^^ n) s))"
    using dispatch_unpaused(1)[of cfg urls "rateLimiter (((inLimiter urls (processNext cfg urls)) ^^ n) s)"]
    by (intro syncInv_inLimiter) (simp_all add: limiter_flags_same aborted_same)
  then show ?case by simp
qed

lemma syncInv_run: "syncInv (audit_run cfg urls as)"
proof (induction as rule: rev_induct)
  case Nil
  have "syncInv (newAuditEngine\<lparr>enginePaused := False,
          rateLimiter := (rateLimiter newAuditEngine)\<lparr>isCancelled := False\<rparr>\<rparr>)"
    by (simp add: syncInv_def newAuditEngine_def newRateLimiter_def)
  then show ?case by (simp add: audit_run_Nil startAudit_def syncInv_funpow)
next
  case (snoc a as)
  then show ?case by (simp add: audit_run_snoc syncInv_step)
qed


subsection \<open>A measure of the work left\<close>

lemma rw_same:
  "running (rateLimiter s') = running (rateLimiter s) \<Longrightarrow> workers s' = workers s \<Longrightarrow>
   runningWeight s' = runningWeight s"
  by (simp add: runningWeight_def)

lemma sum_list_upd_notin:
  "i \<notin> set xs \<Longrightarrow> (\<Sum>k\<leftarrow>xs. g ((f(i := v)) k)) = (\<Sum>k\<leftarrow>xs. (g (f k) :: nat))"
  by (induction xs) auto

lemma rw_claim:
  assumes "running (rateLimiter s') = running (rateLimiter s) @ [c]"
    and "c \<notin> set (running (rateLimiter s))" and "workers s' = (workers s)(c := w)"
  shows "runningWeight s' = runningWeight s + workerWeight w"
  unfolding runningWeight_def assms(1,3)
  using sum_list_upd_notin[OF assms(2), of workerWeight "workers s" w] by simp

lemma rw_remove:
  assumes "i \<in> set (running (rateLimiter s))"
    and "running (rateLimiter s') = remove1 i (running (rateLimiter s))" and "workers s' = workers s"
  shows "runningWeight s = workerWeight (workers s i) + runningWeight s'"
  using assms sum_list_map_remove1[of i "running (rateLimiter s)" "\<lambda>i. workerWeight (workers s i)"]
  by (simp add: runningWeight_def)

lemma sum_list_update:
  "distinct xs \<Longrightarrow> i \<in> set xs \<Longrightarrow>
   (\<Sum>k\<leftarrow>xs. g ((f(i := v)) k)) + g (f i) = (\<Sum>k\<leftarrow>xs. g (f k)) + (g v :: nat)"
proof (induction xs)
  case Nil
  then show ?case by simp
next
  case (Cons x xs)
  show ?case
  proof (cases "x = i")
    case True
    with Cons.prems have "i \<notin> set xs" by simp
    from sum_list_upd_notin[OF this, of g f v] True show ?thesis by simp
  next
    case False
    with Cons show ?thesis by simp
  qed
qed

lemma rw_update:
  assumes "distinct (running (rateLimiter s))" "i \<in> set (running (rateLimiter s))"
    and "rateLimiter s' = rateLimiter s" "workers s' = (workers s)(i := w)"
  shows "runningWeight s' + workerWeight (workers s i) = runningWeight s + workerWeight w"
  using sum_list_update[OF assms(1,2), of workerWeight "workers s" w] assms(3,4)
  by (simp add: runningWeight_def)

lemma dec_claimer:
  assumes sync: "syncInv s"
    and sub: "set (running (rateLimiter s)) \<subseteq> {0..<completed (rateLimiter s)}"
    and np: "\<not> isPaused (rateLimiter s)"
  shows "timers (rateLimiter s) \<noteq> 0 \<Longrightarrow>
           remaining urls (inLimiter urls (timerFires cfg urls) s) < remaining urls s"
    and "sleeping (rateLimiter s) \<noteq> 0 \<Longrightarrow>
           remaining urls (inLimiter urls (pauseTick cfg urls) s) < remaining urls s"
proof -
  let ?l = "rateLimiter s"
  have ep: "\<not> enginePaused s" using sync np by (simp add: syncInv_def)
  have notin: "completed ?l \<notin> set (running ?l)" using sub by auto
  have claim: "remaining urls (inLimiter urls f s) < remaining urls s"
    if "completed (f ?l) = Suc (completed ?l)" "running (f ?l) = running ?l @ [completed ?l]"
      "timers (f ?l) + sleeping (f ?l) < timers ?l + sleeping ?l" "delaying (f ?l) = delaying ?l"
      "\<not> aborted (f ?l)" "completed ?l < length urls" for f
  proof -
    have "workers (inLimiter urls f s) = (workers s)(completed ?l := Fetching 0 [])"
      using that(1,5) ep by (simp add: inLimiter_fields)
    with that(2) have "runningWeight (inLimiter urls f s) = runningWeight s + workerWeight (Fetching 0 [])"
      by (intro rw_claim[OF _ notin]) (simp_all add: inLimiter_rateLimiter)
    then have "runningWeight (inLimiter urls f s) = runningWeight s + 10"
      by (simp add: workerWeight_def auditors_def)
    with that show ?thesis by (simp add: remaining_def inLimiter_rateLimiter)
  qed
  have keep: "remaining urls (inLimiter urls f s) < remaining urls s"
    if "completed (f ?l) = completed ?l" "running (f ?l) = running ?l"
      "timers (f ?l) + sleeping (f ?l) < timers ?l + sleeping ?l" "delaying (f ?l) = delaying ?l" for f
  proof -
    have "workers (inLimiter urls f s) = workers s" using that(1) by (simp add: inLimiter_fields)
    with that(2) have "runningWeight (inLimiter urls f s) = runningWeight s"
      by (intro rw_same) (simp_all add: inLimiter_rateLimiter)
    with that show ?thesis by (simp add: remaining_def inLimiter_rateLimiter)
  qed
  show "remaining urls (inLimiter urls (timerFires cfg urls) s) < remaining urls s"
    if t: "timers ?l \<noteq> 0"
  proof (cases "\<not> isCancelled ?l \<and> \<not> aborted ?l \<and> canClaim cfg urls ?l")
    case True
    with t np show ?thesis by (intro claim) (simp_all add: step_fields canClaim_def)
  next
    case False
    with t np show ?thesis by (intro keep) (auto simp: step_fields)
  qed
  show "remaining urls (inLimiter urls (pauseTick cfg urls) s) < remaining urls s"
    if t: "sleeping ?l \<noteq> 0"
  proof (cases "canClaim cfg urls ?l")
    case True
    show ?thesis
    proof (cases "aborted ?l")
      case False
      with True t np show ?thesis by (intro claim) (simp_all add: step_fields canClaim_def)
    next
      case ab: True
      have f: "completed (pauseTick cfg urls ?l) = Suc (completed ?l)"
        "running (pauseTick cfg urls ?l) = running ?l @ [completed ?l]"
        "sleeping (pauseTick cfg urls ?l) = sleeping ?l - 1" "timers (pauseTick cfg urls ?l) = timers ?l"
        "delaying (pauseTick cfg urls ?l) = delaying ?l" "aborted (pauseTick cfg urls ?l)"
        using True t np ab by (simp_all add: step_fields)
      have "workers (inLimiter urls (pauseTick cfg urls) s) = (workers s)(completed ?l := Thrown)"
        using f(1,6) by (simp add: inLimiter_fields)
      with f(2) have "runningWeight (inLimiter urls (pauseTick cfg urls) s) =
          runningWeight s + workerWeight Thrown"
        by (intro rw_claim[OF _ notin]) (simp_all add: inLimiter_rateLimiter)
      moreover have "12 * (length urls - Suc (completed ?l)) + 12 = 12 * (length urls - completed ?l)"
        using True by (auto simp: canClaim_def)
      ultimately show ?thesis using f t
        by (simp add: remaining_def inLimiter_rateLimiter workerWeight_def)
    qed
  next
    case False
    with t np show ?thesis by (intro keep) (auto simp: step_fields)
  qed
qed

lemma dec_delay:
  assumes "delaying (rateLimiter s) \<noteq> 0"
  shows "remaining urls (inLimiter urls delayElapsed s) < remaining urls s"
proof -
  let ?l = "rateLimiter s"
  have "workers (inLimiter urls delayElapsed s) = workers s"
    by (simp add: inLimiter_fields delayElapsed_def)
  then have "runningWeight (inLimiter urls delayElapsed s) = runningWeight s"
    by (intro rw_same) (simp_all add: inLimiter_rateLimiter delayElapsed_def)
  with assms show ?thesis by (simp add: remaining_def inLimiter_rateLimiter delayElapsed_def)
qed

lemma dec_settle:
  assumes "i \<in> set (running (rateLimiter s))" "workerSettled (workers s i)"
  shows "remaining urls (inLimiter urls (finallyBlock cfg urls i) s) < remaining urls s"
proof -
  let ?l = "rateLimiter s" and ?s' = "inLimiter urls (finallyBlock cfg urls i) s"
  have w: "workers ?s' = workers s" by (simp add: inLimiter_fields finallyBlock_fields)
  have "runningWeight s = workerWeight (workers s i) + runningWeight ?s'"
    using assms(1) w by (intro rw_remove) (simp_all add: inLimiter_rateLimiter finallyBlock_fields)
  then have rw: "runningWeight s = 3 + runningWeight ?s'"
    using assms(2) by (auto simp: workerSettled_def workerWeight_def)
  have td: "timers (finallyBlock cfg urls i ?l) + delaying (finallyBlock cfg urls i ?l) =
      Suc (timers ?l + delaying ?l)"
    using assms(1) by (simp add: finallyBlock_fields)
  then have "2 * delaying (finallyBlock cfg urls i ?l) + timers (finallyBlock cfg urls i ?l) \<le>
      2 * delaying ?l + timers ?l + 2"
    by (simp add: finallyBlock_def Let_def split: if_splits)
  with rw show ?thesis
    by (simp add: remaining_def inLimiter_rateLimiter finallyBlock_fields)
qed

lemma dec_fetch:
  assumes d: "distinct (running (rateLimiter s))" and i: "i \<in> set (running (rateLimiter s))"
    and w: "workers s i = Fetching j acc"
  shows "remaining urls (fetchReturns urls i r s) < remaining urls s"
proof -
  let ?s' = "auditUrlFrom urls i (Suc j) (acc @ auditResults urls i j r s) s"
  let ?w = "if Suc j < length auditors \<and> \<not> signalAborted s
            then Fetching (Suc j) (acc @ auditResults urls i j r s) else Returned"
  have "runningWeight ?s' + workerWeight (workers s i) = runningWeight s + workerWeight ?w"
    by (rule rw_update[OF d i]) (simp_all add: auditUrlFrom_fields)
  moreover have "workerWeight ?w < workerWeight (Fetching j acc)"
    by (simp add: workerWeight_def) arith
  ultimately have "runningWeight ?s' < runningWeight s" using w by simp
  with w show ?thesis by (simp add: fetchReturns_eq remaining_def auditUrlFrom_fields)
qed


lemma engine_running:
  "distinct (running (rateLimiter (audit_run cfg urls as)))"
  "set (running (rateLimiter (audit_run cfg urls as))) \<subseteq> {0..<completed (rateLimiter (audit_run cfg urls as))}"
proof -
  from limiter_of_run[of cfg urls as] obtain es where
    es: "rateLimiter (audit_run cfg urls as) = run cfg urls es" by blast
  show "distinct (running (rateLimiter (audit_run cfg urls as)))"
    using run_running[of cfg urls es] by (simp add: es)
  show "set (running (rateLimiter (audit_run cfg urls as))) \<subseteq> {0..<completed (rateLimiter (audit_run cfg urls as))}"
    using run_running[of cfg urls es] by (simp add: es)
qed

lemma isPaused_step:
  "a \<noteq> Pause \<Longrightarrow> \<not> isPaused (rateLimiter s) \<Longrightarrow> \<not> isPaused (rateLimiter (engineStep cfg urls s a))"
  by (cases a) (simp_all add: engineStep_rateLimiter limiter_flags_same resume_def cancel_def abort_def
      del: engineStep.simps)

lemma next_step:
  assumes np: "\<not> isPaused (rateLimiter (audit_run cfg urls as))"
    and t: "tokens (rateLimiter (audit_run cfg urls as)) \<noteq> 0"
  shows "\<exists>a. a \<noteq> Cancel \<and> a \<noteq> Pause \<and>
           remaining urls (engineStep cfg urls (audit_run cfg urls as) a) < remaining urls (audit_run cfg urls as)"
proof -
  let ?s = "audit_run cfg urls as"
  let ?l = "rateLimiter ?s"
  from t consider "timers ?l \<noteq> 0" | "sleeping ?l \<noteq> 0" | "delaying ?l \<noteq> 0" | "running ?l \<noteq> []"
    by (auto simp: tokens_def)
  then show ?thesis
  proof cases
    case 1
    from dec_claimer(1)[OF syncInv_run engine_running(2) np 1, of urls cfg]
    have "remaining urls (engineStep cfg urls ?s TimerRuns) < remaining urls ?s" by simp
    then show ?thesis by (intro exI[of _ TimerRuns]) simp
  next
    case 2
    from dec_claimer(2)[OF syncInv_run engine_running(2) np 2, of urls cfg]
    have "remaining urls (engineStep cfg urls ?s LimiterPauseTick) < remaining urls ?s" by simp
    then show ?thesis by (intro exI[of _ LimiterPauseTick]) simp
  next
    case 3
    from dec_delay[OF 3, of urls]
    have "remaining urls (engineStep cfg urls ?s DelayEnds) < remaining urls ?s" by simp
    then show ?thesis by (intro exI[of _ DelayEnds]) simp
  next
    case 4
    let ?i = "hd (running ?l)"
    from 4 have mem: "?i \<in> set (running ?l)" by simp
    with engine_running(2)[of cfg urls as] have "?i < completed ?l" by auto
    with workerInv_run[of cfg urls as ?i] have notIdle: "workers ?s ?i \<noteq> Idle"
      by (simp add: workerInv_def)
    have notSleeping: "workers ?s ?i \<noteq> Sleeping"
      using syncInv_run[of cfg urls as] by (simp add: syncInv_def)
    show ?thesis
    proof (cases "workers ?s ?i")
      case (Fetching j acc)
      from dec_fetch[OF engine_running(1) mem Fetching, of urls "Failed []"]
      have "remaining urls (engineStep cfg urls ?s (FetchReturns ?i (Failed []))) < remaining urls ?s"
        by simp
      then show ?thesis by (intro exI[of _ "FetchReturns ?i (Failed [])"]) simp
    next
      case Returned
      then have "workerSettled (workers ?s ?i)" by (simp add: workerSettled_def)
      from dec_settle[OF mem this, of urls cfg] this
      have "remaining urls (engineStep cfg urls ?s (WorkerSettles ?i)) < remaining urls ?s" by simp
      then show ?thesis by (intro exI[of _ "WorkerSettles ?i"]) simp
    next
      case Thrown
      then have "workerSettled (workers ?s ?i)" by (simp add: workerSettled_def)
      from dec_settle[OF mem this, of urls cfg] this
      have "remaining urls (engineStep cfg urls ?s (WorkerSettles ?i)) < remaining urls ?s" by simp
      then show ?thesis by (intro exI[of _ "WorkerSettles ?i"]) simp
    qed (use notIdle notSleeping in simp_all)
  qed
qed

lemma can_quiesce_unpaused:
  assumes "\<not> isPaused (rateLimiter (audit_run cfg urls as))"
  shows "\<exists>bs. Cancel \<notin> set bs \<and> quiescent (audit_run cfg urls (as @ bs))"
  using assms
proof (induction "remaining urls (audit_run cfg urls as)" arbitrary: as rule: less_induct)
  case less
  show ?case
  proof (cases "tokens (rateLimiter (audit_run cfg urls as)) = 0")
    case True
    then show ?thesis by (intro exI[of _ "[]"]) (simp add: quiescent_def)
  next
    case False
    from next_step[OF less.prems False] obtain a where a: "a \<noteq> Cancel" "a \<noteq> Pause"
      "remaining urls (engineStep cfg urls (audit_run cfg urls as) a) < remaining urls (audit_run cfg urls as)"
      by blast
    have "\<not> isPaused (rateLimiter (audit_run cfg urls (as @ [a])))"
      using isPaused_step[OF a(2) less.prems] by (simp add: audit_run_snoc)
    from less.hyps[OF _ this] a(3) obtain bs where
      "Cancel \<notin> set bs" "quiescent (audit_run cfg urls ((as @ [a]) @ bs))"
      by (auto simp: audit_run_snoc)
    with a(1) show ?thesis by (intro exI[of _ "a # bs"]) simp
  qed
qed

lemma can_quiesce: "\<exists>bs. Cancel \<notin> set bs \<and> quiescent (audit_run cfg urls (as @ bs))"
proof -
  have "\<not> isPaused (rateLimiter (audit_run cfg urls (as @ [Resume])))"
    by (simp add: audit_run_snoc resume_def)
  from can_quiesce_unpaused[OF this] obtain bs where
    "Cancel \<notin> set bs" "quiescent (audit_run cfg urls ((as @ [Resume]) @ bs))" by blast
  then show ?thesis by (intro exI[of _ "Resume # bs"]) simp
qed


subsection \<open>Completeness\<close>

lemma quiescent_all_claimed:
  assumes nc: "Cancel \<notin> set as" and mc: "1 \<le> maxConcurrent cfg" and ne: "urls \<noteq> []"
    and q: "quiescent (audit_run cfg urls as)"
  shows "completed (rateLimiter (audit_run cfg urls as)) = length urls"
    "running (rateLimiter (audit_run cfg urls as)) = []"
    "\<not> signalAborted (audit_run cfg urls as)"
proof -
  obtain es where es: "rateLimiter (audit_run cfg urls as) = run cfg urls es"
    "(CallCancel \<in> set es) = (Cancel \<in> set as)" "(SignalAbort \<in> set es) = (Cancel \<in> set as)"
    using limiter_of_run[of cfg urls as] by blast
  from es nc have flags: "\<not> isCancelled (run cfg urls es)" "\<not> aborted (run cfg urls es)"
    by (simp_all add: run_flags)
  from q es(1) have t: "tokens (run cfg urls es) = 0" by (simp add: quiescent_def)
  from mc ne have k: "0 < initialBatch cfg urls" by (simp add: initialBatch_def)
  have "\<not> completed (run cfg urls es) < length urls"
  proof
    assume "completed (run cfg urls es) < length urls"
    from run_tokens_eq[OF flags this] t k show False by simp
  qed
  with run_completed_le[of cfg urls es] es(1)
  show "completed (rateLimiter (audit_run cfg urls as)) = length urls" by simp
  from t es(1) show "running (rateLimiter (audit_run cfg urls as)) = []" by (simp add: tokens_def)
  from flags(2) es(1) show "\<not> signalAborted (audit_run cfg urls as)" by (simp add: signalAborted_def)
qed

text \<open>
  Claim C7. Take a run over a non-empty list with a concurrency limit of at least 1 in
  which \<^verbatim>\<open>cancel()\<close> is never called. The run can always be continued, without a
  cancellation, to its end, that is, to a state in which no worker is in flight and no
  callback of the scheduler is left to run. And whenever the run is at its end, for every
  url of the list \<^verbatim>\<open>processUrl\<close> has made its first progress report exactly once and its
  second progress report exactly once, the count of completed urls equals the length of
  the list, and a progress report with \<open>completed = total =\<close> that length has been made.
\<close>

theorem completeness:
  assumes "Cancel \<notin> set as" and "1 \<le> maxConcurrent cfg" and "urls \<noteq> []"
  shows "(\<exists>bs. Cancel \<notin> set bs \<and> quiescent (audit_run cfg urls (as @ bs))) \<and>
         (quiescent (audit_run cfg urls as) \<longrightarrow>
           (\<forall>i < length urls. startsOf i (audit_run cfg urls as) = 1 \<and>
                              endsOf i (audit_run cfg urls as) = 1) \<and>
           urlsCompleted (audit_run cfg urls as) = length urls \<and>
           (\<exists>i u. (AtEnd i, OnProgress u (length urls) (length urls))
                     \<in> set (calls (audit_run cfg urls as))))"
proof (rule conjI)
  show "\<exists>bs. Cancel \<notin> set bs \<and> quiescent (audit_run cfg urls (as @ bs))"
    by (rule can_quiesce)
next
  let ?s = "audit_run cfg urls as"
  show "quiescent ?s \<longrightarrow>
      (\<forall>i < length urls. startsOf i ?s = 1 \<and> endsOf i ?s = 1) \<and>
      urlsCompleted ?s = length urls \<and>
      (\<exists>i u. (AtEnd i, OnProgress u (length urls) (length urls)) \<in> set (calls ?s))"
  proof
  assume "quiescent ?s"
  note q = quiescent_all_claimed[OF assms this]
  have ret: "workers ?s i = Returned" if "i < length urls" for i
  proof -
    from workerInv_run[of cfg urls as i] that q
    have "workers ?s i \<noteq> Idle" "\<not> inFlight (workers ?s i)" "workers ?s i \<noteq> Thrown"
      by (auto simp: workerInv_def)
    then show ?thesis by (cases "workers ?s i") (simp_all add: inFlight_def)
  qed
  have counts: "startsOf i ?s = 1 \<and> endsOf i ?s = 1" if "i < length urls" for i
    using workerInv_run[of cfg urls as i] ret[OF that] by (simp add: workerInv_def started_def)
  have "returnedSet urls ?s = {..<length urls}"
    using ret by (auto simp: returnedSet_def)
  with count_run[of cfg urls as] have n: "urlsCompleted ?s = length urls" by simp
  from lastReported_run[of urls cfg as] n assms(3)
  have "\<exists>i u. (AtEnd i, OnProgress u (length urls) (length urls)) \<in> set (calls ?s)"
    by (simp add: lastReported_def)
  with counts n show "(\<forall>i < length urls. startsOf i ?s = 1 \<and> endsOf i ?s = 1) \<and>
      urlsCompleted ?s = length urls \<and>
      (\<exists>i u. (AtEnd i, OnProgress u (length urls) (length urls)) \<in> set (calls ?s))"
    by blast
  qed
qed

theorem completeness_witness:
  "Cancel \<notin> set (replicate 6 (FetchReturns 1 (Failed ''HTTP 500'')) @
                 replicate 6 (FetchReturns 0 (Fetched (Element ''html'' [] []))) @
                 [WorkerSettles 0, WorkerSettles 1, TimerRuns, TimerRuns]) \<and>
   1 \<le> maxConcurrent \<lparr>maxConcurrent = 2, delayBetweenBatches = 0\<rparr> \<and>
   [''https://a.test'', ''https://b.test''] \<noteq> [] \<and>
   quiescent (audit_run \<lparr>maxConcurrent = 2, delayBetweenBatches = 0\<rparr>
     [''https://a.test'', ''https://b.test'']
     (replicate 6 (FetchReturns 1 (Failed ''HTTP 500'')) @
      replicate 6 (FetchReturns 0 (Fetched (Element ''html'' [] []))) @
      [WorkerSettles 0, WorkerSettles 1, TimerRuns, TimerRuns])) \<and>
   urlsCompleted (audit_run \<lparr>maxConcurrent = 2, delayBetweenBatches = 0\<rparr>
     [''https://a.test'', ''https://b.test'']
     (replicate 6 (FetchReturns 1 (Failed ''HTTP 500'')) @
      replicate 6 (FetchReturns 0 (Fetched (Element ''html'' [] []))) @
      [WorkerSettles 0, WorkerSettles 1, TimerRuns, TimerRuns])) = 2"
proof -
  let ?as = "replicate 6 (FetchReturns 1 (Failed ''HTTP 500'')) @
             replicate 6 (FetchReturns 0 (Fetched (Element ''html'' [] []))) @
             [WorkerSettles 0, WorkerSettles 1, TimerRuns, TimerRuns]"
  let ?cfg = "\<lparr>maxConcurrent = 2, delayBetweenBatches = 0\<rparr>"
  let ?urls = "[''https://a.test'', ''https://b.test'']"
  have h1: "Cancel \<notin> set ?as" by simp
  have h2: "1 \<le> maxConcurrent ?cfg" by simp
  have h3: "?urls \<noteq> []" by simp
  have h4: "quiescent (audit_run ?cfg ?urls ?as)" by code_simp
  note inst = completeness[OF h1 h2 h3]
  from inst h4 have "urlsCompleted (audit_run ?cfg ?urls ?as) = length ?urls" by blast
  then have c: "urlsCompleted (audit_run ?cfg ?urls ?as) = 2" by simp
  from h1 h2 h3 h4 c show ?thesis by blast
qed

section \<open>The engine: failures and cancellation\<close>

text \<open>
  Claim C6 says that a failed fetch and a throwing evaluator become \<^verbatim>\<open>onError\<close> events that
  carry the url, and that a failed fetch skips the evaluators of that url. The code does
  neither. Here every fetch of the only url fails with a server error: the six auditors
  are all run (after the first failure the worker is waiting for the fetch of the second
  auditor), and the callbacks receive two progress reports and the completion, and no
  error.
\<close>

theorem fetch_failure_makes_no_error_event:
  "map snd (calls (audit_run defaultConfig [''https://a.test'']
      (replicate 6 (FetchReturns 0 (Failed ''HTTP 500: Internal Server Error'')) @
       [WorkerSettles 0, TimerRuns]))) =
     [OnProgress ''https://a.test'' 0 1, OnProgress [] 1 1, OnComplete] \<and>
   workers (audit_run defaultConfig [''https://a.test'']
      [FetchReturns 0 (Failed ''HTTP 500: Internal Server Error'')]) 0 = Fetching 1 []"
  by code_simp

text \<open>
  Claim C6, amended. A failed or aborted fetch makes \<^verbatim>\<open>audit\<close> return the empty list for that
  url and auditor; \<^verbatim>\<open>auditUrl\<close> then goes on to the next auditor with the results collected
  so far, which fetches the page again while auditors remain and the signal has not fired.
  No such failure reaches the callbacks or the scheduler: in every run the only call of
  \<^verbatim>\<open>onError\<close> that is ever made is the one of \<^verbatim>\<open>startAudit\<close> with url \<^verbatim>\<open>system\<close> and message
  \<^verbatim>\<open>Processing cancelled\<close>, made only after \<^verbatim>\<open>cancel()\<close>, and the promise of the scheduler is
  rejected only after \<^verbatim>\<open>cancel()\<close>.
\<close>

theorem failures_are_swallowed:
  "(\<forall>c \<in> set (calls (audit_run cfg urls as)).
      isErrorCall c \<longrightarrow>
        c = (InStartAudit, OnError ''system'' ''Processing cancelled'') \<and> Cancel \<in> set as) \<and>
   (\<forall>x. promise (rateLimiter (audit_run cfg urls as)) = Rejected x \<longrightarrow> Cancel \<in> set as) \<and>
   audit a url aborted0 (Failed msg) aborted1 = Inr [] \<and>
   audit a url aborted0 AbortError aborted1 = Inr [] \<and>
   (workers s i = Fetching j acc \<longrightarrow>
      fetchReturns urls i (Failed msg) s = auditUrlFrom urls i (Suc j) acc s \<and>
      (Suc j < length auditors \<and> \<not> signalAborted s \<longrightarrow>
         workers (fetchReturns urls i (Failed msg) s) i = Fetching (Suc j) acc))"
proof -
  have 1: "\<forall>c \<in> set (calls (audit_run cfg urls as)).
      isErrorCall c \<longrightarrow>
        c = (InStartAudit, OnError ''system'' ''Processing cancelled'') \<and> Cancel \<in> set as"
    using onlySystemErrors_run[of cfg urls as] engine_aborted[of cfg urls as]
    by (simp add: onlySystemErrors_def)
  have 2: "\<forall>x. promise (rateLimiter (audit_run cfg urls as)) = Rejected x \<longrightarrow> Cancel \<in> set as"
    using engine_rejected[of cfg urls as] by blast
  have 3: "fetchReturns urls i (Failed msg) s = auditUrlFrom urls i (Suc j) acc s"
    if "workers s i = Fetching j acc"
    using that by (simp add: fetchReturns_eq auditResults_def audit_no_fetch)
  have 4: "workers (fetchReturns urls i (Failed msg) s) i = Fetching (Suc j) acc"
    if "workers s i = Fetching j acc" "Suc j < length auditors" "\<not> signalAborted s"
    using that by (simp add: 3 auditUrlFrom_fields)
  from 1 2 3 4 audit_no_fetch(1)[of a url aborted0 aborted1]
    audit_no_fetch(2)[of a url aborted0 msg aborted1]
  show ?thesis by blast
qed

theorem failures_are_swallowed_witness:
  "(InStartAudit, OnError ''system'' ''Processing cancelled'') \<in>
     set (calls (audit_run defaultConfig [''https://a.test'']
       [Cancel, FetchReturns 0 AbortError, WorkerSettles 0, TimerRuns])) \<and>
   isErrorCall (InStartAudit, OnError ''system'' ''Processing cancelled'') \<and>
   promise (rateLimiter (audit_run defaultConfig [''https://a.test'']
       [Cancel, FetchReturns 0 AbortError, WorkerSettles 0, TimerRuns])) =
     Rejected (JsError ''Error'' ''Processing cancelled'') \<and>
   Cancel \<in> set [Cancel, FetchReturns 0 AbortError, WorkerSettles 0, TimerRuns] \<and>
   workers (audit_run defaultConfig [''https://a.test''] []) 0 = Fetching 0 [] \<and>
   Suc 0 < length auditors \<and>
   \<not> signalAborted (audit_run defaultConfig [''https://a.test''] []) \<and>
   workers (fetchReturns [''https://a.test''] 0 (Failed ''HTTP 500'')
              (audit_run defaultConfig [''https://a.test''] [])) 0 = Fetching (Suc 0) []"
proof -
  let ?as = "[Cancel, FetchReturns 0 AbortError, WorkerSettles 0, TimerRuns]"
  let ?s = "audit_run defaultConfig [''https://a.test''] []"
  have m: "(InStartAudit, OnError ''system'' ''Processing cancelled'') \<in>
     set (calls (audit_run defaultConfig [''https://a.test''] ?as))"
    by code_simp
  have e: "isErrorCall (InStartAudit, OnError ''system'' ''Processing cancelled'')"
    by (simp add: isErrorCall_def)
  have p: "promise (rateLimiter (audit_run defaultConfig [''https://a.test''] ?as)) =
     Rejected (JsError ''Error'' ''Processing cancelled'')"
    by code_simp
  have w: "workers ?s 0 = Fetching 0 []" by code_simp
  have l: "Suc 0 < length auditors" by (simp add: auditors_def)
  have n: "\<not> signalAborted ?s" by code_simp
  note inst = failures_are_swallowed[of defaultConfig "[''https://a.test'']" ?as ImageAuditor
      "''https://a.test''" False "''HTTP 500''" False ?s 0 0 "[]"]
  from inst m e have c: "Cancel \<in> set ?as" by blast
  from inst w l n have t: "workers (fetchReturns [''https://a.test''] 0 (Failed ''HTTP 500'') ?s) 0 =
      Fetching (Suc 0) []" by blast
  from m e p c w l n t show ?thesis by blast
qed

text \<open>
  Claim C4 says that a cancellation is never reported through \<^verbatim>\<open>onError\<close>. It is: the
  scheduler rejects its promise with \<^verbatim>\<open>new Error('Processing cancelled')\<close>, whose name is
  \<^verbatim>\<open>Error\<close>, so the test \<^verbatim>\<open>error.name !== 'AbortError'\<close> of \<^verbatim>\<open>startAudit\<close> lets it through. Here
  \<^verbatim>\<open>cancel()\<close> is called while the only url is being fetched; the fetch is aborted, the
  worker settles, and the next call of \<^verbatim>\<open>processNext\<close> rejects the promise.
\<close>

theorem cancellation_reported_as_system_error:
  "map snd (calls (audit_run defaultConfig [''https://a.test'']
      [Cancel, FetchReturns 0 AbortError, WorkerSettles 0, TimerRuns])) =
     [OnProgress ''https://a.test'' 0 1, OnProgress [] 1 1,
      OnError ''system'' ''Processing cancelled'']"
  by code_simp

lemma startsOf_inLimiter:
  "startsOf k (inLimiter urls f s) =
     (if completed (f (rateLimiter s)) = Suc (completed (rateLimiter s)) \<and> k = completed (rateLimiter s) \<and>
         \<not> aborted (f (rateLimiter s)) \<and> \<not> enginePaused s
      then Suc (startsOf k s) else startsOf k s)"
  by (simp add: inLimiter_def Let_def startAuditSettles_fields processUrl_fields)

lemma no_start_after_cancel:
  assumes "signalAborted s" "syncInv s"
  shows "startsOf k (engineStep cfg urls s a) = startsOf k s"
proof (cases a)
  case (WorkerPauseTick i)
  with assms(2) show ?thesis by (simp add: workerPauseTick_def syncInv_def)
next
  case (FetchReturns i r)
  then show ?thesis by (simp add: fetchReturns_eq auditUrlFrom_fields split: worker.split)
qed (use assms(1) in \<open>simp_all add: startsOf_inLimiter aborted_same signalAborted_def\<close>)

lemma no_start_after_cancel_run:
  assumes "Cancel \<in> set as"
  shows "startsOf k (audit_run cfg urls (as @ bs)) = startsOf k (audit_run cfg urls as)"
proof (induction bs rule: rev_induct)
  case Nil
  show ?case by simp
next
  case (snoc b bs)
  have "signalAborted (audit_run cfg urls (as @ bs))" using assms by (simp add: engine_aborted)
  from no_start_after_cancel[OF this syncInv_run, of k cfg urls b] snoc show ?case
    by (simp add: audit_run_snoc[of cfg urls "as @ bs" b, simplified])
qed

lemma urlsCompleted_le: "urlsCompleted (audit_run cfg urls as) \<le> length urls"
proof -
  have "returnedSet urls (audit_run cfg urls as) \<subseteq> {..<length urls}"
    by (auto simp: returnedSet_def)
  then have "card (returnedSet urls (audit_run cfg urls as)) \<le> card {..<length urls}"
    by (intro card_mono) simp_all
  then show ?thesis by (simp add: count_run)
qed

lemma ends_need_start:
  "endsOf k (audit_run cfg urls as) \<le> startsOf k (audit_run cfg urls as)"
  "endsOf k (audit_run cfg urls as) \<le> 1"
  using workerInv_run[of cfg urls as k] by (simp_all add: workerInv_def started_def)

lemma aborted_fetch_finishes:
  assumes "workers s k = Fetching j acc" "signalAborted s"
  shows "calls (fetchReturns urls k AbortError s) =
           calls s @ (if acc \<noteq> [] then [(InTry k, OnResults acc)] else []) @
             [(AtEnd k, OnProgress (if Suc (urlsCompleted s) < length urls
                                    then urls ! Suc (urlsCompleted s) else [])
                          (Suc (urlsCompleted s)) (length urls))]"
    "workers (fetchReturns urls k AbortError s) k = Returned"
  using assms
  by (simp_all add: fetchReturns_eq auditResults_def audit_no_fetch auditUrlFrom_def afterAuditUrl_fields)

subsection \<open>The session around the engine\<close>

text \<open>A step of the engine only appends to the calls it has made, so the calls the hook
  delivers after a step are the new ones; and the engine of a session is always in a state
  of a run of the engine, so what is proved of those runs holds in every session.\<close>

lemma calls_afterAuditUrl: "prefix (calls s) (calls (afterAuditUrl urls i (Inr rs) s))"
  by (simp add: afterAuditUrl_fields)

lemma calls_auditUrlFrom: "prefix (calls s) (calls (auditUrlFrom urls i j rs s))"
  by (simp add: auditUrlFrom_def calls_afterAuditUrl)

lemma calls_afterPauseUrl: "prefix (calls s) (calls (afterPauseUrl urls i s))"
proof -
  have "prefix (calls s) (calls (call (AtStart i) (OnProgress (urls ! i) (urlsCompleted s) (length urls)) s))"
    by (simp add: call_def)
  then show ?thesis unfolding afterPauseUrl_def by (rule prefix_order.trans) (rule calls_auditUrlFrom)
qed

lemma calls_processUrl: "prefix (calls s) (calls (processUrl urls i s))"
  by (simp add: processUrl_def calls_afterPauseUrl)

lemma calls_startAuditSettles: "prefix (calls s) (calls (startAuditSettles p s))"
  by (simp add: startAuditSettles_def call_def split: promiseState.split)

lemma calls_inLimiter: "prefix (calls s) (calls (inLimiter urls f s))"
proof -
  have 1: "prefix (calls s) (calls (processUrl urls k (s\<lparr>rateLimiter := l\<rparr>)))" for k l
    using calls_processUrl[of "s\<lparr>rateLimiter := l\<rparr>" urls k] by simp
  have 2: "prefix (calls s) (calls (startAuditSettles p (s\<lparr>rateLimiter := l\<rparr>)))" for p l
    using calls_startAuditSettles[of "s\<lparr>rateLimiter := l\<rparr>" p] by simp
  show ?thesis
    unfolding inLimiter_def Let_def
    by (auto intro: 2 prefix_order.trans[OF 1 calls_startAuditSettles])
qed

lemma calls_engineStep: "prefix (calls s) (calls (engineStep cfg urls s a))"
  by (cases a) (simp_all add: calls_inLimiter fetchReturns_eq workerPauseTick_eq calls_afterPauseUrl
      calls_auditUrlFrom split: worker.split)

text \<open>So the calls of a step are the old calls followed by the new ones.\<close>

lemma calls_new:
  "calls (engineStep cfg urls s a) =
     calls s @ drop (length (calls s)) (calls (engineStep cfg urls s a))"
  using calls_engineStep[of s cfg urls a] by (auto simp: prefix_def)

lemma engineOf_deliver: "engineOf (deliver cs s) = engineOf s"
  by (induction cs arbitrary: s) simp_all

lemma engineOf_hookStep:
  "engineOf (hookStep cfg urls s a) = engineOf s \<or>
   engineOf (hookStep cfg urls s a) = engineStep cfg urls (engineOf s) a"
  by (cases a) (simp_all add: engineOf_deliver Let_def)

lemma session_engine:
  "\<exists>bs. engineOf (foldl (hookStep cfg urls) (deliver cs \<lparr>engineOf = startAudit cfg urls, engineRef = r, status = st\<rparr>) as)
         = audit_run cfg urls bs"
proof (induction as rule: rev_induct)
  case Nil
  show ?case by (intro exI[of _ "[]"]) (simp add: engineOf_deliver audit_run_def)
next
  case (snoc a as)
  then obtain bs where bs: "engineOf (foldl (hookStep cfg urls) (deliver cs \<lparr>engineOf = startAudit cfg urls, engineRef = r, status = st\<rparr>) as) = audit_run cfg urls bs"
    by blast
  from engineOf_hookStep[of cfg urls "foldl (hookStep cfg urls) (deliver cs \<lparr>engineOf = startAudit cfg urls, engineRef = r, status = st\<rparr>) as" a]
  show ?case
  proof
    assume "engineOf (hookStep cfg urls (foldl (hookStep cfg urls) (deliver cs \<lparr>engineOf = startAudit cfg urls, engineRef = r, status = st\<rparr>) as) a) =
      engineOf (foldl (hookStep cfg urls) (deliver cs \<lparr>engineOf = startAudit cfg urls, engineRef = r, status = st\<rparr>) as)"
    with bs show ?thesis by (intro exI[of _ bs]) simp
  next
    assume "engineOf (hookStep cfg urls (foldl (hookStep cfg urls) (deliver cs \<lparr>engineOf = startAudit cfg urls, engineRef = r, status = st\<rparr>) as) a) =
      engineStep cfg urls (engineOf (foldl (hookStep cfg urls) (deliver cs \<lparr>engineOf = startAudit cfg urls, engineRef = r, status = st\<rparr>) as)) a"
    with bs show ?thesis by (intro exI[of _ "bs @ [a]"]) (simp add: audit_run_def)
  qed
qed

lemma sessionRun_engine:
  "sessionRun cfg urls as = Inr s \<Longrightarrow> \<exists>bs. engineOf s = audit_run cfg urls bs"
  using session_engine[of cfg urls _ True "auditReducer None START_AUDIT" as]
  by (auto simp: sessionRun_def start_def Let_def split: if_splits)

text \<open>
  Claim C5 says that after \<^verbatim>\<open>cancel()\<close> the status is cancelled, the count of completed urls
  stays at most the total, and no \<^verbatim>\<open>onResults\<close> or \<^verbatim>\<open>onProgress\<close> call is made any more, not
  even for a url in flight. The count is at most the total in every run. The other two
  fail.

  First session: \<^verbatim>\<open>pause()\<close> is called while the only url is being fetched; the url
  finishes, and the call of \<^verbatim>\<open>processNext\<close> that follows waits in its pause loop. Now
  \<^verbatim>\<open>cancel()\<close> is called and the status is cancelled. At its next turn the pause loop ends,
  because \<^verbatim>\<open>isCancelled\<close> is set, and \<^verbatim>\<open>processNext\<close> goes on to \<^verbatim>\<open>completed >= items.length\<close>
  without a test for the cancellation: it resolves the promise, \<^verbatim>\<open>startAudit\<close> calls
  \<^verbatim>\<open>onComplete\<close>, the hook dispatches \<^verbatim>\<open>COMPLETE_AUDIT\<close>, and the status is completed.

  Second session: \<^verbatim>\<open>cancel()\<close> is called after the image auditor has finished and while
  the link auditor is fetching. Up to the cancellation one progress report has been made;
  when the aborted fetch returns, \<^verbatim>\<open>auditUrl\<close> breaks out of its loop and \<^verbatim>\<open>processUrl\<close> hands
  the results collected so far to \<^verbatim>\<open>onResults\<close> and reports progress with one url
  completed.
\<close>

theorem cancelled_session_completes:
  "progressStatus (sessionRun defaultConfig [''https://a.test'']
      (Pause # replicate 6 (FetchReturns 0 (Fetched scenarioDocument)) @
       [WorkerSettles 0, TimerRuns, Cancel])) = Some StatusCancelled \<and>
   callbacksMade (sessionRun defaultConfig [''https://a.test'']
      (Pause # replicate 6 (FetchReturns 0 (Fetched scenarioDocument)) @
       [WorkerSettles 0, TimerRuns, Cancel])) =
     [OnProgress ''https://a.test'' 0 1,
      OnResults [\<lparr>fullUrl = ''https://a.test'', type = IMAGE_MISSING_ALT, details = [],
                  linkText = [], targetUrl = ''/x.jpg'', imageFilename = []\<rparr>,
                 \<lparr>fullUrl = ''https://a.test'', type = INACCESSIBLE_LINK, details = [],
                  linkText = ''click here'', targetUrl = ''https://a.test'', imageFilename = []\<rparr>],
      OnProgress [] 1 1] \<and>
   progressStatus (sessionRun defaultConfig [''https://a.test'']
      (Pause # replicate 6 (FetchReturns 0 (Fetched scenarioDocument)) @
       [WorkerSettles 0, TimerRuns, Cancel, LimiterPauseTick])) = Some StatusCompleted \<and>
   callbacksMade (sessionRun defaultConfig [''https://a.test'']
      (Pause # replicate 6 (FetchReturns 0 (Fetched scenarioDocument)) @
       [WorkerSettles 0, TimerRuns, Cancel, LimiterPauseTick])) =
     [OnProgress ''https://a.test'' 0 1,
      OnResults [\<lparr>fullUrl = ''https://a.test'', type = IMAGE_MISSING_ALT, details = [],
                  linkText = [], targetUrl = ''/x.jpg'', imageFilename = []\<rparr>,
                 \<lparr>fullUrl = ''https://a.test'', type = INACCESSIBLE_LINK, details = [],
                  linkText = ''click here'', targetUrl = ''https://a.test'', imageFilename = []\<rparr>],
      OnProgress [] 1 1,
      OnComplete] \<and>
   progressStatus (sessionRun defaultConfig [''https://a.test'']
      [FetchReturns 0 (Fetched scenarioDocument), Cancel]) = Some StatusCancelled \<and>
   callbacksMade (sessionRun defaultConfig [''https://a.test'']
      [FetchReturns 0 (Fetched scenarioDocument), Cancel]) =
     [OnProgress ''https://a.test'' 0 1] \<and>
   callbacksMade (sessionRun defaultConfig [''https://a.test'']
      [FetchReturns 0 (Fetched scenarioDocument), Cancel, FetchReturns 0 AbortError]) =
     [OnProgress ''https://a.test'' 0 1,
      OnResults [\<lparr>fullUrl = ''https://a.test'', type = IMAGE_MISSING_ALT, details = [],
                  linkText = [], targetUrl = ''/x.jpg'', imageFilename = []\<rparr>],
      OnProgress [] 1 1] \<and>
   urlsCompleted (audit_run cfg urls as) \<le> length urls"
proof -
  let ?paused = "Pause # replicate 6 (FetchReturns 0 (Fetched scenarioDocument)) @
                 [WorkerSettles 0, TimerRuns, Cancel]"
  let ?resolved = "Pause # replicate 6 (FetchReturns 0 (Fetched scenarioDocument)) @
                   [WorkerSettles 0, TimerRuns, Cancel, LimiterPauseTick]"
  let ?img = "\<lparr>fullUrl = ''https://a.test'', type = IMAGE_MISSING_ALT, details = [],
               linkText = [], targetUrl = ''/x.jpg'', imageFilename = []\<rparr>"
  let ?link = "\<lparr>fullUrl = ''https://a.test'', type = INACCESSIBLE_LINK, details = [],
                linkText = ''click here'', targetUrl = ''https://a.test'', imageFilename = []\<rparr>"
  have 1: "progressStatus (sessionRun defaultConfig [''https://a.test''] ?paused) = Some StatusCancelled"
    by code_simp
  have 2: "callbacksMade (sessionRun defaultConfig [''https://a.test''] ?paused) =
      [OnProgress ''https://a.test'' 0 1, OnResults [?img, ?link], OnProgress [] 1 1]"
    by code_simp
  have 3: "progressStatus (sessionRun defaultConfig [''https://a.test''] ?resolved) = Some StatusCompleted"
    by code_simp
  have 4: "callbacksMade (sessionRun defaultConfig [''https://a.test''] ?resolved) =
      [OnProgress ''https://a.test'' 0 1, OnResults [?img, ?link], OnProgress [] 1 1, OnComplete]"
    by code_simp
  have 5: "progressStatus (sessionRun defaultConfig [''https://a.test'']
      [FetchReturns 0 (Fetched scenarioDocument), Cancel]) = Some StatusCancelled"
    by code_simp
  have 6: "callbacksMade (sessionRun defaultConfig [''https://a.test'']
      [FetchReturns 0 (Fetched scenarioDocument), Cancel]) = [OnProgress ''https://a.test'' 0 1]"
    by code_simp
  have 7: "callbacksMade (sessionRun defaultConfig [''https://a.test'']
      [FetchReturns 0 (Fetched scenarioDocument), Cancel, FetchReturns 0 AbortError]) =
      [OnProgress ''https://a.test'' 0 1, OnResults [?img], OnProgress [] 1 1]"
    by code_simp
  note 8 = urlsCompleted_le[of cfg urls as]
  from 1 2 3 4 5 6 7 8 show ?thesis by blast
qed

section \<open>The end-to-end scenario\<close>

text \<open>
  Claim C8. For the list \<^verbatim>\<open>["https://a.test"]\<close> and the markup of the scenario the run makes
  one \<^verbatim>\<open>onResults\<close> call with the two findings, completes with one url completed and
  reports no error, as the claim says, except for one field: the image finding has an
  empty \<^verbatim>\<open>imageFilename\<close>, not \<^verbatim>\<open>x.jpg\<close>, because \<^verbatim>\<open>new URL('/x.jpg')\<close> throws on a relative
  address and \<^verbatim>\<open>extractFilename\<close> returns the empty string from its \<^verbatim>\<open>catch\<close>.
\<close>

theorem end_to_end_scenario:
  "map snd (calls (audit_run defaultConfig [''https://a.test'']
      (replicate 6 (FetchReturns 0 (Fetched scenarioDocument)) @ [WorkerSettles 0, TimerRuns]))) =
     [OnProgress ''https://a.test'' 0 1,
      OnResults [\<lparr>fullUrl = ''https://a.test'', type = IMAGE_MISSING_ALT, details = [],
                  linkText = [], targetUrl = ''/x.jpg'', imageFilename = []\<rparr>,
                 \<lparr>fullUrl = ''https://a.test'', type = INACCESSIBLE_LINK, details = [],
                  linkText = ''click here'', targetUrl = ''https://a.test'', imageFilename = []\<rparr>],
      OnProgress [] 1 1,
      OnComplete] \<and>
   urlsCompleted (audit_run defaultConfig [''https://a.test'']
      (replicate 6 (FetchReturns 0 (Fetched scenarioDocument)) @ [WorkerSettles 0, TimerRuns])) = 1 \<and>
   extractFilename ''/x.jpg'' = [] \<and>
   extractFilename ''https://a.test/x.jpg'' = ''x.jpg''"
  by code_simp

end
